theory Spec2Isabelle
  imports Main "HOL-Library.Word"
begin

unbundle bit_operations_syntax

section \<open>Safepoint pages, GC rendezvous and interrupt state (safepoint.c)\<close>

text \<open>
  The global state of \<^verbatim>\<open>safepoint.c\<close>: the pending interrupt level
  (\<^verbatim>\<open>sig_atomic_t jl_signal_pending\<close>), the GC flag
  (\<^verbatim>\<open>_Atomic(uint32_t) jl_gc_running\<close>), the three enable counters
  (\<^verbatim>\<open>uint8_t jl_safepoint_enable_cnt[3]\<close>) and the protection of the three pages
  as the last \<^verbatim>\<open>mprotect\<close> left it.  Calls into the operating system and the
  thread library, and calls of runtime functions that are not part of these two files, are
  recorded in program order in \<open>trace\<close>.
\<close>

datatype prot = PROT_NONE | PROT_READ

datatype fn = jl_sig_throw | jl_exit_thread0_cb

datatype event =
    MutexLock
  | MutexUnlock
  | CondBroadcast
  | Mprotect nat prot
  | StoreRelaxed "32 word"
  | StoreRelease "32 word"
  | CmpSwap bool
  | CondWait
  | SetGcAndWait
  | ClearForceSigint
  | RecBacktraceCtx
  | SigUnblock int
  | Call fn
  | SafePrintf string
  | SignalDfl int
  | TtyResetMode
  | ShowSigill
  | CriticalError int
  | Raise int

datatype failure =
    Assert_idx_range
  | Assert_cnt_le_2
  | Assert_cnt_gt_0
  | Assert_gc_running
  | Assert_gc_state_waiting
  | Assert_shouldnt_happen
  | Assert_rsp_aligned
  | Assert_sig

record safepoint =
  jl_signal_pending :: int
  jl_gc_running :: "32 word"
  jl_safepoint_enable_cnt :: "nat \<Rightarrow> 8 word"
  page_prot :: "nat \<Rightarrow> prot"
  trace :: "event list"

definition emit :: "event \<Rightarrow> safepoint \<Rightarrow> safepoint" where
  "emit e s = s\<lparr>trace := trace s @ [e]\<rparr>"

definition bind :: "failure + 'a \<Rightarrow> ('a \<Rightarrow> failure + 'b) \<Rightarrow> failure + 'b" where
  "bind m f = (case m of Inl e \<Rightarrow> Inl e | Inr x \<Rightarrow> f x)"

text \<open>
  \<^verbatim>\<open>mprotect(jl_safepoint_pages + jl_page_size * idx, jl_page_size, p)\<close>; its return
  value is ignored by the source, and the model takes the call to succeed.
\<close>

definition mprotect :: "nat \<Rightarrow> prot \<Rightarrow> safepoint \<Rightarrow> safepoint" where
  "mprotect i p s = emit (Mprotect i p) (s\<lparr>page_prot := (page_prot s)(i := p)\<rparr>)"

text \<open>
  \<^verbatim>\<open>jl_safepoint_enable\<close>: the post-increment compares the old value with 0 and
  stores the old value plus one, wrapping at 8 bits.
\<close>

definition jl_safepoint_enable :: "int \<Rightarrow> safepoint \<Rightarrow> failure + safepoint" where
  "jl_safepoint_enable idx s =
     (if \<not> (0 \<le> idx \<and> idx < 3) then Inl Assert_idx_range
      else
        let i = nat idx;
            old = jl_safepoint_enable_cnt s i;
            s1 = s\<lparr>jl_safepoint_enable_cnt := (jl_safepoint_enable_cnt s)(i := old + 1)\<rparr>
        in if old \<noteq> 0
           then (if jl_safepoint_enable_cnt s1 i \<le> 2 then Inr s1 else Inl Assert_cnt_le_2)
           else Inr (mprotect i PROT_NONE s1))"

text \<open>
  \<^verbatim>\<open>jl_safepoint_disable\<close>: the pre-decrement stores the old value minus one,
  wrapping at 8 bits, and compares the new value with 0.
\<close>

definition jl_safepoint_disable :: "int \<Rightarrow> safepoint \<Rightarrow> failure + safepoint" where
  "jl_safepoint_disable idx s =
     (if \<not> (0 \<le> idx \<and> idx < 3) then Inl Assert_idx_range
      else
        let i = nat idx;
            new = jl_safepoint_enable_cnt s i - 1;
            s1 = s\<lparr>jl_safepoint_enable_cnt := (jl_safepoint_enable_cnt s)(i := new)\<rparr>
        in if new \<noteq> 0
           then (if jl_safepoint_enable_cnt s1 i > 0 then Inr s1 else Inl Assert_cnt_gt_0)
           else Inr (mprotect i PROT_READ s1))"

text \<open>The state \<^verbatim>\<open>jl_safepoint_init\<close> leaves: three read-only pages, nothing enabled.\<close>

definition safepoint_init :: safepoint where
  "safepoint_init =
     \<lparr>jl_signal_pending = 0, jl_gc_running = 0,
      jl_safepoint_enable_cnt = (\<lambda>i. 0),
      page_prot = (\<lambda>i. PROT_READ),
      trace = []\<rparr>"

definition store_relaxed :: "32 word \<Rightarrow> safepoint \<Rightarrow> safepoint" where
  "store_relaxed v s = emit (StoreRelaxed v) (s\<lparr>jl_gc_running := v\<rparr>)"

definition store_release :: "32 word \<Rightarrow> safepoint \<Rightarrow> safepoint" where
  "store_release v s = emit (StoreRelease v) (s\<lparr>jl_gc_running := v\<rparr>)"

text \<open>
  \<^verbatim>\<open>jl_safepoint_end_gc\<close>, as the calling thread runs it.  While the thread holds the
  safepoint lock no other thread changes the counters, and \<^verbatim>\<open>jl_gc_running\<close> is
  nonzero, so only the caller (the collector) stores to it.  The code between
  \<^verbatim>\<open>#ifdef __APPLE__\<close> and \<^verbatim>\<open>#endif\<close> is not part of the build that
  \<^verbatim>\<open>signals-unix.c\<close> describes and is left out.
\<close>

definition jl_safepoint_end_gc :: "int \<Rightarrow> safepoint \<Rightarrow> failure + safepoint" where
  "jl_safepoint_end_gc jl_n_threads s =
     (if jl_gc_running s = 0 then Inl Assert_gc_running
      else if jl_n_threads = 1 then Inr (store_relaxed 0 s)
      else
        bind (jl_safepoint_disable 2 (emit MutexLock s)) (\<lambda>s1.
        bind (jl_safepoint_disable 1 s1) (\<lambda>s2.
        Inr (emit CondBroadcast (emit MutexUnlock (store_release 0 s2))))))"

text \<open>
  \<^verbatim>\<open>jl_safepoint_enable_sigint\<close>: the \<^verbatim>\<open>switch\<close> falls through from
  \<^verbatim>\<open>case 0\<close> to \<^verbatim>\<open>case 1\<close> to \<^verbatim>\<open>case 2\<close>; the
  \<^verbatim>\<open>default\<close> label is the failed assertion.
\<close>

definition jl_safepoint_enable_sigint :: "safepoint \<Rightarrow> failure + safepoint" where
  "jl_safepoint_enable_sigint s =
     (let s0 = emit MutexLock s in
      bind (if jl_signal_pending s0 = 0 then bind (jl_safepoint_enable 0 s0) (jl_safepoint_enable 1)
            else if jl_signal_pending s0 = 1 then jl_safepoint_enable 1 s0
            else if jl_signal_pending s0 = 2 then Inr s0
            else Inl Assert_shouldnt_happen)
        (\<lambda>s1. Inr (emit MutexUnlock (s1\<lparr>jl_signal_pending := 2\<rparr>))))"

definition jl_safepoint_defer_sigint :: "safepoint \<Rightarrow> failure + safepoint" where
  "jl_safepoint_defer_sigint s =
     (let s0 = emit MutexLock s in
      bind (if jl_signal_pending s0 = 2
            then bind (jl_safepoint_disable 1 s0) (\<lambda>s1. Inr (s1\<lparr>jl_signal_pending := 1\<rparr>))
            else Inr s0)
        (\<lambda>s1. Inr (emit MutexUnlock s1)))"

text \<open>
  \<^verbatim>\<open>jl_safepoint_consume_sigint\<close> returns \<^verbatim>\<open>has_signal\<close> together with the
  new state.
\<close>

definition jl_safepoint_consume_sigint :: "safepoint \<Rightarrow> failure + (int \<times> safepoint)" where
  "jl_safepoint_consume_sigint s =
     (let s0 = emit MutexLock s in
      bind (if jl_signal_pending s0 = 2
            then bind (jl_safepoint_disable 1 s0) (\<lambda>s1.
                 bind (jl_safepoint_disable 0 s1) (\<lambda>s2. Inr (1, s2)))
            else if jl_signal_pending s0 = 1
            then bind (jl_safepoint_disable 0 s0) (\<lambda>s1. Inr (1, s1))
            else if jl_signal_pending s0 = 0 then Inr (0, s0)
            else Inl Assert_shouldnt_happen)
        (\<lambda>(has_signal, s1). Inr (has_signal, emit MutexUnlock (s1\<lparr>jl_signal_pending := 0\<rparr>))))"

text \<open>
  Invariant I1 of the interrupt state, with \<open>g\<close> the collector's own increment of the
  master GC page: the pending level fixes the interrupt's share of the counters of slots 0 and
  1, and every page is inaccessible exactly when its counter is positive.
\<close>

definition sigint_share0 :: "int \<Rightarrow> 8 word" where
  "sigint_share0 lvl = (if 1 \<le> lvl then 1 else 0)"

definition sigint_share1 :: "int \<Rightarrow> 8 word" where
  "sigint_share1 lvl = (if lvl = 2 then 1 else 0)"

definition prot_of_cnt :: "8 word \<Rightarrow> prot" where
  "prot_of_cnt c = (if c = 0 then PROT_READ else PROT_NONE)"

definition sigint_inv :: "8 word \<Rightarrow> safepoint \<Rightarrow> bool" where
  "sigint_inv g s =
     (jl_signal_pending s \<in> {0, 1, 2} \<and> g \<le> 1 \<and>
      jl_safepoint_enable_cnt s 0 = sigint_share0 (jl_signal_pending s) \<and>
      jl_safepoint_enable_cnt s 1 = g + sigint_share1 (jl_signal_pending s) \<and>
      (\<forall>i<3. page_prot s i = prot_of_cnt (jl_safepoint_enable_cnt s i)))"

text \<open>The pair of calls of property P3.\<close>

definition sigint_roundtrip :: "safepoint \<Rightarrow> failure + (int \<times> safepoint)" where
  "sigint_roundtrip s = bind (jl_safepoint_enable_sigint s) jl_safepoint_consume_sigint"

text \<open>
  The reading of P3 under test: the pair of calls leaves slots 0 and 1 with the counters and
  the protections they had before it.
\<close>

definition slots01_as_before :: "safepoint \<Rightarrow> safepoint \<Rightarrow> bool" where
  "slots01_as_before s s' =
     (jl_safepoint_enable_cnt s' 0 = jl_safepoint_enable_cnt s 0 \<and>
      jl_safepoint_enable_cnt s' 1 = jl_safepoint_enable_cnt s 1 \<and>
      page_prot s' 0 = page_prot s 0 \<and>
      page_prot s' 1 = page_prot s 1)"

text \<open>A state at level 1: one interrupt pending, only the sigint page enabled.\<close>

definition level1_state :: safepoint where
  "level1_state =
     \<lparr>jl_signal_pending = 1, jl_gc_running = 0,
      jl_safepoint_enable_cnt = (\<lambda>i. 0)(0 := 1),
      page_prot = (\<lambda>i. PROT_READ)(0 := PROT_NONE),
      trace = []\<rparr>"

text \<open>A collection in progress with no interrupt pending: slots 1 and 2 enabled by the GC.\<close>

definition collecting_state :: safepoint where
  "collecting_state =
     \<lparr>jl_signal_pending = 0, jl_gc_running = 1,
      jl_safepoint_enable_cnt = (\<lambda>i. 0)(1 := 1, 2 := 1),
      page_prot = (\<lambda>i. PROT_READ)(1 := PROT_NONE, 2 := PROT_NONE),
      trace = []\<rparr>"

text \<open>
  Sequences of calls on one slot, for property P1.  \<open>nested d cs\<close> says that \<open>cs\<close>, started
  with \<open>d\<close> enables outstanding, never disables more than was enabled, never has more than
  two enables outstanding, and ends with none.
\<close>

datatype slot_call = Enable | Disable

fun run_calls :: "int \<Rightarrow> slot_call list \<Rightarrow> safepoint \<Rightarrow> failure + safepoint" where
  "run_calls idx [] s = Inr s"
| "run_calls idx (Enable # cs) s = bind (jl_safepoint_enable idx s) (run_calls idx cs)"
| "run_calls idx (Disable # cs) s = bind (jl_safepoint_disable idx s) (run_calls idx cs)"

fun nested :: "nat \<Rightarrow> slot_call list \<Rightarrow> bool" where
  "nested d [] = (d = 0)"
| "nested d (Enable # cs) = (d < 2 \<and> nested (Suc d) cs)"
| "nested d (Disable # cs) = (0 < d \<and> nested (d - 1) cs)"

definition slot_ok :: "safepoint \<Rightarrow> nat \<Rightarrow> bool" where
  "slot_ok s i = (jl_safepoint_enable_cnt s i \<le> 2 \<and>
                  page_prot s i = prot_of_cnt (jl_safepoint_enable_cnt s i))"

section \<open>The GC rendezvous among threads (safepoint.c)\<close>

text \<open>
  \<^verbatim>\<open>jl_safepoint_start_gc\<close>, \<^verbatim>\<open>jl_safepoint_wait_gc\<close> and
  \<^verbatim>\<open>jl_safepoint_end_gc\<close> as run by several threads at once.  Each thread has a program
  counter; one step of a thread is one statement of the source: a mutex operation, one atomic
  load, store or compare-and-swap of \<^verbatim>\<open>jl_gc_running\<close>, or one call of
  \<^verbatim>\<open>jl_safepoint_enable\<close> or \<^verbatim>\<open>jl_safepoint_disable\<close> (made with the lock held).
  A thread that is \<open>Idle\<close> calls \<^verbatim>\<open>jl_safepoint_start_gc\<close>; when the call has returned
  true it collects and calls \<^verbatim>\<open>jl_safepoint_end_gc\<close>; when it has returned false, or
  \<^verbatim>\<open>jl_safepoint_end_gc\<close> has returned, the thread is \<open>Idle\<close> again.
\<close>

datatype gc_pc =
    Idle
  | SG_lock
  | SG_cas
  | SG_enable1
  | SG_enable2
  | SG_unlock_won
  | SG_unlock_lost
  | WG_load_relaxed
  | WG_load_acquire
  | WG_lock
  | WG_check
  | WG_waiting
  | WG_woken
  | WG_unlock
  | Returned bool
  | EG_lock
  | EG_disable2
  | EG_disable1
  | EG_store
  | EG_unlock
  | EG_broadcast
  | Aborted failure

text \<open>
  The system: the safepoint globals, the owner of \<^verbatim>\<open>safepoint_lock\<close>, the program
  counters and, for reference, the results of the calls of \<^verbatim>\<open>jl_safepoint_start_gc\<close>
  that have returned, oldest first.
\<close>

record gc_sys =
  globals :: safepoint
  safepoint_lock :: "nat option"
  pc :: "nat \<Rightarrow> gc_pc"
  returned :: "(nat \<times> bool) list"

definition goto :: "nat \<Rightarrow> gc_pc \<Rightarrow> gc_sys \<Rightarrow> gc_sys" where
  "goto t p s = s\<lparr>pc := (pc s)(t := p)\<rparr>"

definition on_globals :: "(safepoint \<Rightarrow> safepoint) \<Rightarrow> gc_sys \<Rightarrow> gc_sys" where
  "on_globals f s = s\<lparr>globals := f (globals s)\<rparr>"

definition uv_mutex_lock :: "nat \<Rightarrow> gc_sys \<Rightarrow> gc_sys" where
  "uv_mutex_lock t s = on_globals (emit MutexLock) (s\<lparr>safepoint_lock := Some t\<rparr>)"

definition uv_mutex_unlock :: "gc_sys \<Rightarrow> gc_sys" where
  "uv_mutex_unlock s = on_globals (emit MutexUnlock) (s\<lparr>safepoint_lock := None\<rparr>)"

text \<open>\<^verbatim>\<open>uv_cond_broadcast\<close> wakes every thread that waits on the condition variable.\<close>

definition uv_cond_broadcast :: "gc_sys \<Rightarrow> gc_sys" where
  "uv_cond_broadcast s =
     on_globals (emit CondBroadcast)
       (s\<lparr>pc := (\<lambda>u. if pc s u = WG_waiting then WG_woken else pc s u)\<rparr>)"

definition call_slot ::
    "nat \<Rightarrow> (safepoint \<Rightarrow> failure + safepoint) \<Rightarrow> gc_pc \<Rightarrow> gc_sys \<Rightarrow> gc_sys" where
  "call_slot t f p s =
     (case f (globals s) of
        Inl e \<Rightarrow> goto t (Aborted e) s
      | Inr g \<Rightarrow> goto t p (s\<lparr>globals := g\<rparr>))"

text \<open>
  One step of thread \<open>t\<close> when \<^verbatim>\<open>jl_n_threads\<close> is \<open>n\<close>; \<open>None\<close> when the thread cannot
  move (the mutex is taken, or it waits on the condition variable).  \<open>waiting t\<close> says that
  the thread has set its \<^verbatim>\<open>gc_state\<close> to \<^verbatim>\<open>JL_GC_STATE_WAITING\<close> before the call, as
  the assertion of \<^verbatim>\<open>jl_safepoint_start_gc\<close> asks.
\<close>

definition thread_step :: "nat \<Rightarrow> (nat \<Rightarrow> bool) \<Rightarrow> nat \<Rightarrow> gc_sys \<Rightarrow> gc_sys option" where
  "thread_step n waiting t s =
     (case pc s t of
        Idle \<Rightarrow>
          if n = 1
          then Some (goto t (Returned True)
                 ((on_globals (store_relaxed 1) s)\<lparr>returned := returned s @ [(t, True)]\<rparr>))
          else if \<not> waiting t then Some (goto t (Aborted Assert_gc_state_waiting) s)
          else Some (goto t SG_lock s)
      | SG_lock \<Rightarrow>
          if safepoint_lock s = None then Some (goto t SG_cas (uv_mutex_lock t s)) else None
      | SG_cas \<Rightarrow>
          if jl_gc_running (globals s) = 0
          then Some (goto t SG_enable1
                 (on_globals (\<lambda>g. emit (CmpSwap True) (g\<lparr>jl_gc_running := 1\<rparr>)) s))
          else Some (goto t SG_unlock_lost (on_globals (emit (CmpSwap False)) s))
      | SG_enable1 \<Rightarrow> Some (call_slot t (jl_safepoint_enable 1) SG_enable2 s)
      | SG_enable2 \<Rightarrow> Some (call_slot t (jl_safepoint_enable 2) SG_unlock_won s)
      | SG_unlock_won \<Rightarrow>
          Some (goto t (Returned True)
            ((uv_mutex_unlock s)\<lparr>returned := returned s @ [(t, True)]\<rparr>))
      | SG_unlock_lost \<Rightarrow> Some (goto t WG_load_relaxed (uv_mutex_unlock s))
      | WG_load_relaxed \<Rightarrow>
          if jl_gc_running (globals s) \<noteq> 0 then Some (goto t WG_lock s)
          else Some (goto t WG_load_acquire s)
      | WG_load_acquire \<Rightarrow>
          if jl_gc_running (globals s) \<noteq> 0 then Some (goto t WG_lock s)
          else Some (goto t (Returned False) (s\<lparr>returned := returned s @ [(t, False)]\<rparr>))
      | WG_lock \<Rightarrow>
          if safepoint_lock s = None then Some (goto t WG_check (uv_mutex_lock t s)) else None
      | WG_check \<Rightarrow>
          if jl_gc_running (globals s) \<noteq> 0
          then Some (goto t WG_waiting (on_globals (emit CondWait) (s\<lparr>safepoint_lock := None\<rparr>)))
          else Some (goto t WG_unlock s)
      | WG_waiting \<Rightarrow> None
      | WG_woken \<Rightarrow>
          if safepoint_lock s = None then Some (goto t WG_unlock (s\<lparr>safepoint_lock := Some t\<rparr>))
          else None
      | WG_unlock \<Rightarrow> Some (goto t WG_load_relaxed (uv_mutex_unlock s))
      | Returned True \<Rightarrow>
          if jl_gc_running (globals s) = 0 then Some (goto t (Aborted Assert_gc_running) s)
          else if n = 1 then Some (goto t Idle (on_globals (store_relaxed 0) s))
          else Some (goto t EG_lock s)
      | Returned False \<Rightarrow> Some (goto t Idle s)
      | EG_lock \<Rightarrow>
          if safepoint_lock s = None then Some (goto t EG_disable2 (uv_mutex_lock t s)) else None
      | EG_disable2 \<Rightarrow> Some (call_slot t (jl_safepoint_disable 2) EG_disable1 s)
      | EG_disable1 \<Rightarrow> Some (call_slot t (jl_safepoint_disable 1) EG_store s)
      | EG_store \<Rightarrow> Some (goto t EG_unlock (on_globals (store_release 0) s))
      | EG_unlock \<Rightarrow> Some (goto t EG_broadcast (uv_mutex_unlock s))
      | EG_broadcast \<Rightarrow> Some (goto t Idle (uv_cond_broadcast s))
      | Aborted e \<Rightarrow> None)"

text \<open>
  A thread blocked in \<^verbatim>\<open>uv_cond_wait\<close> may also wake up without a broadcast; it then
  takes the mutex again like a thread that was woken.
\<close>

definition spurious_wakeup :: "nat \<Rightarrow> gc_sys \<Rightarrow> gc_sys option" where
  "spurious_wakeup t s = (if pc s t = WG_waiting then Some (goto t WG_woken s) else None)"

definition gc_init :: gc_sys where
  "gc_init = \<lparr>globals = safepoint_init, safepoint_lock = None, pc = (\<lambda>t. Idle), returned = []\<rparr>"

text \<open>The states that \<open>n\<close> threads reach from the initial state, in any interleaving.\<close>

inductive reachable :: "nat \<Rightarrow> (nat \<Rightarrow> bool) \<Rightarrow> gc_sys \<Rightarrow> bool" for n waiting where
  init: "reachable n waiting gc_init"
| step: "reachable n waiting s \<Longrightarrow> t < n \<Longrightarrow> thread_step n waiting t s = Some s' \<Longrightarrow>
         reachable n waiting s'"
| wake: "reachable n waiting s \<Longrightarrow> t < n \<Longrightarrow> spurious_wakeup t s = Some s' \<Longrightarrow>
         reachable n waiting s'"

text \<open>Running a schedule: the threads step in the order of the list.\<close>

fun run :: "nat \<Rightarrow> (nat \<Rightarrow> bool) \<Rightarrow> nat list \<Rightarrow> gc_sys \<Rightarrow> gc_sys option" where
  "run n waiting [] s = Some s"
| "run n waiting (t # ts) s =
     (if t < n
      then (case thread_step n waiting t s of None \<Rightarrow> None | Some s' \<Rightarrow> run n waiting ts s')
      else None)"

text \<open>
  A thread is the collector from its successful compare-and-swap until its store of 0 in
  \<^verbatim>\<open>jl_safepoint_end_gc\<close>.
\<close>

fun collecting :: "gc_pc \<Rightarrow> bool" where
  "collecting SG_enable1 = True"
| "collecting SG_enable2 = True"
| "collecting SG_unlock_won = True"
| "collecting (Returned True) = True"
| "collecting EG_lock = True"
| "collecting EG_disable2 = True"
| "collecting EG_disable1 = True"
| "collecting EG_store = True"
| "collecting p = False"

fun holds_lock :: "gc_pc \<Rightarrow> bool" where
  "holds_lock SG_cas = True"
| "holds_lock SG_enable1 = True"
| "holds_lock SG_enable2 = True"
| "holds_lock SG_unlock_won = True"
| "holds_lock SG_unlock_lost = True"
| "holds_lock WG_check = True"
| "holds_lock WG_unlock = True"
| "holds_lock EG_disable2 = True"
| "holds_lock EG_disable1 = True"
| "holds_lock EG_store = True"
| "holds_lock EG_unlock = True"
| "holds_lock p = False"

text \<open>
  The invariant of the rendezvous.  \<open>share1\<close> and \<open>share2\<close> say where the collector has its
  increment of slots 1 and 2 in place; \<open>c\<close> is the collector, if there is one.
\<close>

fun share1 :: "gc_pc \<Rightarrow> bool" where
  "share1 SG_enable2 = True"
| "share1 SG_unlock_won = True"
| "share1 (Returned True) = True"
| "share1 EG_lock = True"
| "share1 EG_disable2 = True"
| "share1 EG_disable1 = True"
| "share1 p = False"

fun share2 :: "gc_pc \<Rightarrow> bool" where
  "share2 SG_unlock_won = True"
| "share2 (Returned True) = True"
| "share2 EG_lock = True"
| "share2 EG_disable2 = True"
| "share2 p = False"

text \<open>The threads between the unlock and the broadcast of \<^verbatim>\<open>jl_safepoint_end_gc\<close>, and the
  threads blocked on the condition variable.\<close>

definition announcing :: "gc_sys \<Rightarrow> nat set" where
  "announcing s = {u. pc s u = EG_unlock \<or> pc s u = EG_broadcast}"

definition waiters :: "gc_sys \<Rightarrow> nat set" where
  "waiters s = {u. pc s u = WG_waiting}"

fun single_pc :: "gc_pc \<Rightarrow> bool" where
  "single_pc Idle = True"
| "single_pc (Returned True) = True"
| "single_pc p = False"

fun aborted :: "gc_pc \<Rightarrow> bool" where
  "aborted (Aborted e) = True"
| "aborted p = False"

definition gc_share :: "nat \<Rightarrow> (gc_pc \<Rightarrow> bool) \<Rightarrow> nat option \<Rightarrow> gc_sys \<Rightarrow> 8 word" where
  "gc_share n sh c s = (case c of None \<Rightarrow> 0 | Some u \<Rightarrow> if n \<noteq> 1 \<and> sh (pc s u) then 1 else 0)"

definition gc_inv :: "nat \<Rightarrow> nat option \<Rightarrow> gc_sys \<Rightarrow> bool" where
  "gc_inv n c s =
     ((\<forall>t. collecting (pc s t) \<longleftrightarrow> c = Some t) \<and>
      (\<forall>t. holds_lock (pc s t) \<longleftrightarrow> safepoint_lock s = Some t) \<and>
      (\<forall>t. \<not> aborted (pc s t)) \<and>
      (n = 1 \<longrightarrow> (\<forall>t. single_pc (pc s t))) \<and>
      (\<forall>t. n \<le> t \<longrightarrow> pc s t = Idle) \<and>
      jl_gc_running (globals s) = (if c = None then 0 else 1) \<and>
      jl_safepoint_enable_cnt (globals s) 1 = gc_share n share1 c s \<and>
      jl_safepoint_enable_cnt (globals s) 2 = gc_share n share2 c s \<and>
      page_prot (globals s) 1 = prot_of_cnt (jl_safepoint_enable_cnt (globals s) 1) \<and>
      page_prot (globals s) 2 = prot_of_cnt (jl_safepoint_enable_cnt (globals s) 2) \<and>
      (waiters s \<noteq> {} \<longrightarrow> c \<noteq> None \<or> announcing s \<noteq> {}))"

text \<open>The collector after a step of thread \<open>t\<close>.\<close>

definition next_collector :: "nat \<Rightarrow> nat \<Rightarrow> gc_sys \<Rightarrow> nat option \<Rightarrow> nat option" where
  "next_collector n t s c =
     (case pc s t of
        Idle \<Rightarrow> if n = 1 then Some t else c
      | SG_cas \<Rightarrow> if jl_gc_running (globals s) = 0 then Some t else c
      | Returned True \<Rightarrow> if n = 1 then None else c
      | EG_store \<Rightarrow> None
      | _ \<Rightarrow> c)"

text \<open>
  A thread that has lost the compare-and-swap and whose call has not returned yet: it is in
  \<^verbatim>\<open>jl_safepoint_wait_gc\<close>, or about to release the lock and enter it.
\<close>

fun losing :: "gc_pc \<Rightarrow> bool" where
  "losing SG_unlock_lost = True"
| "losing WG_load_relaxed = True"
| "losing WG_load_acquire = True"
| "losing WG_lock = True"
| "losing WG_check = True"
| "losing WG_waiting = True"
| "losing WG_woken = True"
| "losing WG_unlock = True"
| "losing p = False"

text \<open>
  Two measures of what is left to do before such a thread can return: the statements the
  collector, or the thread about to do the compare-and-swap, still has to run before
  \<^verbatim>\<open>jl_gc_running\<close> is 0 again, and the statements left in \<^verbatim>\<open>jl_safepoint_wait_gc\<close>
  and before the broadcast.
\<close>

fun collector_rank :: "gc_pc \<Rightarrow> nat" where
  "collector_rank SG_cas = 9"
| "collector_rank SG_enable1 = 8"
| "collector_rank SG_enable2 = 7"
| "collector_rank SG_unlock_won = 6"
| "collector_rank (Returned True) = 5"
| "collector_rank EG_lock = 4"
| "collector_rank EG_disable2 = 3"
| "collector_rank EG_disable1 = 2"
| "collector_rank EG_store = 1"
| "collector_rank p = 0"

fun wait_rank :: "gc_pc \<Rightarrow> nat" where
  "wait_rank WG_lock = 10"
| "wait_rank WG_check = 9"
| "wait_rank WG_waiting = 8"
| "wait_rank WG_woken = 7"
| "wait_rank WG_unlock = 6"
| "wait_rank SG_unlock_lost = 6"
| "wait_rank WG_load_relaxed = 5"
| "wait_rank WG_load_acquire = 4"
| "wait_rank EG_unlock = 2"
| "wait_rank EG_broadcast = 1"
| "wait_rank p = 0"

definition gc_rank :: "nat \<Rightarrow> gc_sys \<Rightarrow> nat \<times> nat" where
  "gc_rank n s = (\<Sum>u<n. collector_rank (pc s u), \<Sum>u<n. wait_rank (pc s u))"

text \<open>
  A schedule of two threads: thread 0 wins and returns, thread 1 loses and blocks on the
  condition variable, thread 0 ends its collection, thread 1 wakes up and comes to its acquire
  load.
\<close>

definition loser_schedule :: "nat list" where
  "loser_schedule =
     replicate 6 0 @ replicate 7 1 @ replicate 7 0 @ replicate 3 1"

section \<open>The fault router (signals-unix.c)\<close>

text \<open>
  The build modelled is Linux on x86-64: addresses and \<^verbatim>\<open>uintptr_t\<close> are 64-bit words,
  \<^verbatim>\<open>jl_get_rsp_from_ctx\<close> reads \<^verbatim>\<open>gregs[REG_RSP]\<close>, \<^verbatim>\<open>jl_call_in_ctx\<close> writes
  \<^verbatim>\<open>REG_RSP\<close> and \<^verbatim>\<open>REG_RIP\<close>, and \<^verbatim>\<open>is_write_fault\<close> tests bit 1 of
  \<^verbatim>\<open>gregs[REG_ERR]\<close>.  The instruction pointer is either an address of the interrupted
  program or the entry of a runtime function.
\<close>

type_synonym addr = "64 word"

datatype code_ptr = Interrupted addr | Entry fn

record ucontext =
  REG_RSP :: addr
  REG_RIP :: code_ptr
  REG_ERR :: addr

datatype jl_exception =
    jl_interrupt_exception
  | jl_stackovf_exception
  | jl_readonlymemory_exception
  | jl_segv_exception
  | jl_diverror_exception

text \<open>The fields of the thread-local block \<^verbatim>\<open>jl_ptls_t\<close> that the handlers use.\<close>

record jl_tls =
  signal_stack :: addr
  stackbase :: addr
  stacksize :: addr
  defer_signal :: int
  io_wait :: int
  bt_size :: nat
  sig_exception :: "jl_exception option"

text \<open>The fields of \<^verbatim>\<open>jl_task_t\<close> that the handlers use; \<^verbatim>\<open>ct->ptls\<close> is the
  thread-local block of the handler's state.\<close>

record jl_task =
  tid :: int
  copy_stack :: bool
  stkbuf :: addr
  bufsz :: addr

text \<open>
  What is fixed when the runtime starts: the page size, the base of the three safepoint pages,
  and whether the build defines \<^verbatim>\<open>SEGV_EXCEPTION\<close>.
\<close>

record layout =
  jl_page_size :: addr
  jl_safepoint_pages :: addr
  SEGV_EXCEPTION :: bool

text \<open>
  What a handler is called with and what it reads from the runtime: the signal number,
  \<^verbatim>\<open>info->si_addr\<close>, \<^verbatim>\<open>info->si_code\<close>, whether \<^verbatim>\<open>jl_get_safe_restore()\<close> is
  set, the result of \<^verbatim>\<open>jl_get_current_task()\<close>, and the length of the backtrace that
  \<^verbatim>\<open>rec_backtrace_ctx\<close> would record.
\<close>

record fault =
  sig :: int
  si_addr :: addr
  si_code :: int
  safe_restore :: bool
  current_task :: "jl_task option"
  backtrace_len :: nat

text \<open>
  The state a handler works on: the safepoint globals (with the trace of calls), the trapped
  register context, and the thread-local block of the thread.
\<close>

record hstate =
  sp :: safepoint
  uc :: ucontext
  tls :: jl_tls

definition hemit :: "event \<Rightarrow> hstate \<Rightarrow> hstate" where
  "hemit e h = h\<lparr>sp := emit e (sp h)\<rparr>"

definition SIGILL :: int where "SIGILL = 4"
definition SIGBUS :: int where "SIGBUS = 7"
definition SIGSEGV :: int where "SIGSEGV = 11"
definition SEGV_ACCERR :: int where "SEGV_ACCERR = 2"

definition sig_stack_size :: addr where
  "sig_stack_size = 8 * 1024 * 1024"

text \<open>
  Modelled from the spec: \<^verbatim>\<open>jl_addr_is_safepoint\<close> is declared in a header that is not
  among the sources; by P4 it holds of the addresses in \<open>[P, P + 3 * S)\<close>.
\<close>

definition jl_addr_is_safepoint :: "layout \<Rightarrow> addr \<Rightarrow> bool" where
  "jl_addr_is_safepoint L a =
     (jl_safepoint_pages L \<le> a \<and> a < jl_safepoint_pages L + jl_page_size L * 3)"

definition is_addr_on_sigstack :: "layout \<Rightarrow> jl_tls \<Rightarrow> addr \<Rightarrow> bool" where
  "is_addr_on_sigstack L ptls ptr =
     (\<not> (ptr < signal_stack ptls - jl_page_size L \<or>
         ptr > signal_stack ptls + sig_stack_size))"

definition jl_get_rsp_from_ctx :: "ucontext \<Rightarrow> addr" where
  "jl_get_rsp_from_ctx ctx = REG_RSP ctx"

text \<open>
  \<^verbatim>\<open>jl_call_in_ctx\<close>: without a thread-local block or a signal stack it unblocks the
  signal and calls \<^verbatim>\<open>fptr\<close> directly; otherwise it rewrites the trapped context.
\<close>

definition jl_call_in_ctx ::
    "layout \<Rightarrow> jl_tls option \<Rightarrow> fn \<Rightarrow> int \<Rightarrow> hstate \<Rightarrow> failure + hstate" where
  "jl_call_in_ctx L ptls fptr sg h =
     (if ptls = None \<or> signal_stack (the ptls) = 0
      then Inr (hemit (Call fptr) (hemit (SigUnblock sg) h))
      else
        let rsp0 = jl_get_rsp_from_ctx (uc h);
            rsp = (if is_addr_on_sigstack L (the ptls) rsp0
                   then (rsp0 - 256) AND NOT 15
                   else signal_stack (the ptls) + sig_stack_size)
        in if rsp mod 16 \<noteq> 0 then Inl Assert_rsp_aligned
           else Inr (h\<lparr>uc := (uc h)\<lparr>REG_RSP := rsp - 8, REG_RIP := Entry fptr\<rparr>\<rparr>))"

definition jl_throw_in_ctx ::
    "layout \<Rightarrow> fault \<Rightarrow> jl_exception \<Rightarrow> hstate \<Rightarrow> failure + hstate" where
  "jl_throw_in_ctx L f e h =
     (let h1 = (if \<not> safe_restore f
                then (hemit RecBacktraceCtx h)
                       \<lparr>tls := (tls h)\<lparr>bt_size := backtrace_len f, sig_exception := Some e\<rparr>\<rparr>
                else h)
      in jl_call_in_ctx L (Some (tls h1)) jl_sig_throw (sig f) h1)"

definition is_addr_on_stack :: "jl_task \<Rightarrow> jl_tls \<Rightarrow> addr \<Rightarrow> bool" where
  "is_addr_on_stack ct ptls a =
     (if copy_stack ct
      then a > stackbase ptls - stacksize ptls \<and> a < stackbase ptls
      else a > stkbuf ct \<and> a < stkbuf ct + bufsz ct)"

definition sigdie_handler :: "int \<Rightarrow> hstate \<Rightarrow> hstate" where
  "sigdie_handler sg h =
     (let h1 = hemit TtyResetMode (hemit (SignalDfl sg) h);
          h2 = (if sg = SIGILL then hemit ShowSigill h1 else h1);
          h3 = hemit (CriticalError sg) h2
      in if sg \<noteq> SIGSEGV \<and> sg \<noteq> SIGBUS \<and> sg \<noteq> SIGILL then hemit (Raise sg) h3 else h3)"

definition WRITE_FAULT :: addr where "WRITE_FAULT = 2"

definition exc_reg_is_write_fault :: "addr \<Rightarrow> bool" where
  "exc_reg_is_write_fault err = (err AND WRITE_FAULT \<noteq> 0)"

definition is_write_fault :: "ucontext \<Rightarrow> bool" where
  "is_write_fault ctx = exc_reg_is_write_fault (REG_ERR ctx)"

definition jl_is_on_sigstack :: "layout \<Rightarrow> jl_tls \<Rightarrow> addr \<Rightarrow> ucontext \<Rightarrow> bool" where
  "jl_is_on_sigstack L ptls ptr ctx =
     (is_addr_on_sigstack L ptls ptr \<and> is_addr_on_sigstack L ptls (jl_get_rsp_from_ctx ctx))"

text \<open>
  How a handler ends: it returns to the trapped context, or the process has exited.
\<close>

datatype outcome = Returns | Exits int

text \<open>
  \<^verbatim>\<open>segv_handler\<close>.  \<^verbatim>\<open>jl_set_gc_and_wait\<close> and \<^verbatim>\<open>jl_clear_force_sigint\<close> are
  not part of the two files and appear as events; the safepoint state of \<open>h\<close> is the one the
  thread finds when \<^verbatim>\<open>jl_set_gc_and_wait\<close> has returned.
\<close>

definition segv_handler :: "layout \<Rightarrow> fault \<Rightarrow> hstate \<Rightarrow> failure + (outcome \<times> hstate)" where
  "segv_handler L f h =
     (if safe_restore f
      then bind (jl_call_in_ctx L None jl_sig_throw (sig f) h) (\<lambda>h'. Inr (Returns, h'))
      else case current_task f of
        None \<Rightarrow> Inr (Returns, sigdie_handler (sig f) h)
      | Some ct \<Rightarrow>
          if \<not> (sig f = SIGSEGV \<or> sig f = SIGBUS) then Inl Assert_sig
          else if jl_addr_is_safepoint L (si_addr f) then
            (let h1 = hemit SetGcAndWait h in
             if tid ct \<noteq> 0 then Inr (Returns, h1)
             else if defer_signal (tls h1) \<noteq> 0
             then bind (jl_safepoint_defer_sigint (sp h1)) (\<lambda>s'. Inr (Returns, h1\<lparr>sp := s'\<rparr>))
             else bind (jl_safepoint_consume_sigint (sp h1)) (\<lambda>(r, s').
                    if r \<noteq> 0
                    then bind (jl_throw_in_ctx L f jl_interrupt_exception
                                 (hemit ClearForceSigint (h1\<lparr>sp := s'\<rparr>)))
                           (\<lambda>h'. Inr (Returns, h'))
                    else Inr (Returns, h1\<lparr>sp := s'\<rparr>)))
          else if is_addr_on_stack ct (tls h) (si_addr f)
          then bind (jl_throw_in_ctx L f jl_stackovf_exception h) (\<lambda>h'. Inr (Returns, h'))
          else if jl_is_on_sigstack L (tls h) (si_addr f) (uc h)
          then Inr (Exits (sig f + 128),
                    hemit (SafePrintf (''ERROR: Signal stack overflow, exit'' @ [CHR 0x0A])) h)
          else if sig f = SIGSEGV \<and> si_code f = SEGV_ACCERR \<and> is_write_fault (uc h)
          then bind (jl_throw_in_ctx L f jl_readonlymemory_exception h) (\<lambda>h'. Inr (Returns, h'))
          else if SEGV_EXCEPTION L
          then bind (jl_throw_in_ctx L f jl_segv_exception h) (\<lambda>h'. Inr (Returns, h'))
          else Inr (Returns, sigdie_handler (sig f) h))"

text \<open>
  A concrete machine for the examples: 4 KiB pages, the safepoint pages at \<open>0x10000\<close>, a
  signal stack at \<open>0x2000000\<close>, and the main task running on a stack buffer at
  \<open>0x4000000\<close>.
\<close>

definition layout0 :: layout where
  "layout0 = \<lparr>jl_page_size = 4096, jl_safepoint_pages = 0x10000, SEGV_EXCEPTION = False\<rparr>"

definition tls0 :: jl_tls where
  "tls0 = \<lparr>signal_stack = 0x2000000, stackbase = 0x5000000, stacksize = 0x100000,
           defer_signal = 0, io_wait = 0, bt_size = 0, sig_exception = None\<rparr>"

definition task0 :: jl_task where
  "task0 = \<lparr>tid = 0, copy_stack = False, stkbuf = 0x4000000, bufsz = 0x100000\<rparr>"

definition uc0 :: ucontext where
  "uc0 = \<lparr>REG_RSP = 0x4000800, REG_RIP = Interrupted 0x400000, REG_ERR = 4\<rparr>"

definition h0 :: hstate where
  "h0 = \<lparr>sp = safepoint_init, uc = uc0, tls = tls0\<rparr>"

text \<open>A poll of the safepoint page by the main task while a safe-restore buffer is set.\<close>

definition poll_in_safe_restore :: fault where
  "poll_in_safe_restore =
     \<lparr>sig = 11, si_addr = 0x10008, si_code = 2, safe_restore = True,
      current_task = Some task0, backtrace_len = 0\<rparr>"

text \<open>A poll of the safepoint page by the main task, no safe-restore buffer set.\<close>

definition poll_fault :: fault where
  "poll_fault =
     \<lparr>sig = 11, si_addr = 0x10008, si_code = 2, safe_restore = False,
      current_task = Some task0, backtrace_len = 5\<rparr>"

text \<open>
  A read, from code running on the task's stack, of an unmapped address in the guard page of
  the thread's own signal stack.
\<close>

definition guard_page_fault :: fault where
  "guard_page_fault =
     \<lparr>sig = 11, si_addr = 0x1FFFFF0, si_code = 1, safe_restore = False,
      current_task = Some task0, backtrace_len = 0\<rparr>"

text \<open>A state at level 2: the sigint page and the master GC page enabled for the interrupt.\<close>

definition level2_state :: safepoint where
  "level2_state =
     \<lparr>jl_signal_pending = 2, jl_gc_running = 0,
      jl_safepoint_enable_cnt = (\<lambda>i. 0)(0 := 1, 1 := 1),
      page_prot = (\<lambda>i. PROT_READ)(0 := PROT_NONE, 1 := PROT_NONE),
      trace = []\<rparr>"

section \<open>The signal listener's sampling pass (signals-unix.c)\<close>

text \<open>
  An entry of a backtrace buffer, \<^verbatim>\<open>jl_bt_element_t\<close>: a union of an unsigned word and a
  pointer to a value.
\<close>

datatype jl_bt_element = uintptr "64 word" | jlvalue addr

type_synonym unw_context = addr

text \<open>The fields of a thread's \<^verbatim>\<open>jl_ptls_t\<close> that the listener reads.\<close>

record thread_block =
  ptls_tid :: int
  ptls_current_task :: addr
  sleep_check_state :: int

datatype listener_event =
    LockProfile
  | UnlockProfile
  | GetRandperm
  | SuspendThread nat
  | ResumeThread nat int
  | TimerDelete
  | SetSafeRestore
  | ResetSafeRestore
  | Warning string

text \<open>
  What the listener's pass reads from outside the two files: the number of threads, the
  permutation \<^verbatim>\<open>profile_get_randperm\<close> returns, the context (or \<^verbatim>\<open>NULL\<close>) that
  \<^verbatim>\<open>jl_thread_suspend_and_get_state\<close> hands over for a thread, the frames an unwinding of
  a context finds and whether it faults on the way, the threads' blocks, the cycle counter and
  the clock at the time thread \<open>i\<close> is sampled, the constant \<^verbatim>\<open>JL_MAX_BT_SIZE\<close>, and the
  test \<^verbatim>\<open>jl_profile_is_buffer_full\<close> as a function of the cursor and the size of the
  profile buffer.
\<close>

record listener_env =
  jl_n_threads :: nat
  randperm :: "nat \<Rightarrow> nat"
  suspended_context :: "nat \<Rightarrow> unw_context option"
  frames :: "unw_context \<Rightarrow> jl_bt_element list"
  unwind_faults :: "unw_context \<Rightarrow> bool"
  jl_all_tls_states :: "nat \<Rightarrow> thread_block"
  cycleclock :: "nat \<Rightarrow> 64 word"
  jl_hrtime :: "nat \<Rightarrow> 64 word"
  JL_MAX_BT_SIZE :: nat
  jl_profile_is_buffer_full :: "nat \<Rightarrow> nat \<Rightarrow> bool"

text \<open>
  The listener's variables: \<^verbatim>\<open>running\<close>, the profile buffer \<^verbatim>\<open>bt_data_prof\<close> with its
  cursor \<^verbatim>\<open>bt_size_cur\<close> and size \<^verbatim>\<open>bt_size_max\<close>, the listener's own buffer
  \<^verbatim>\<open>bt_data\<close> with its cursor (the static \<^verbatim>\<open>bt_size\<close> of \<^verbatim>\<open>signal_listener\<close>),
  and \<^verbatim>\<open>last_timer_delete_time\<close>.  A buffer is a function of the index; the cursors index
  allocated arrays and are taken not to wrap.
\<close>

record listener =
  running :: int
  bt_data_prof :: "nat \<Rightarrow> jl_bt_element"
  bt_size_cur :: nat
  bt_size_max :: nat
  bt_data :: "nat \<Rightarrow> jl_bt_element"
  listener_bt_size :: nat
  last_timer_delete_time :: "64 word"
  ltrace :: "listener_event list"

definition lemit :: "listener_event \<Rightarrow> listener \<Rightarrow> listener" where
  "lemit e s = s\<lparr>ltrace := ltrace s @ [e]\<rparr>"

text \<open>Writing \<open>xs\<close> into a buffer from index \<open>k\<close> on.\<close>

definition write_at :: "(nat \<Rightarrow> 'a) \<Rightarrow> nat \<Rightarrow> 'a list \<Rightarrow> (nat \<Rightarrow> 'a)" where
  "write_at buf k xs = (\<lambda>j. if k \<le> j \<and> j < k + length xs then xs ! (j - k) else buf j)"

text \<open>
  \<^verbatim>\<open>rec_backtrace_ctx(buf, maxsize, ctx, NULL)\<close> stores at most \<^verbatim>\<open>maxsize\<close> entries
  and returns how many it stored.
\<close>

definition rec_backtrace_ctx :: "listener_env \<Rightarrow> nat \<Rightarrow> unw_context \<Rightarrow> jl_bt_element list" where
  "rec_backtrace_ctx E maxsize ctx = take maxsize (frames E ctx)"

text \<open>\<^verbatim>\<open>jl_profile_stop_timer\<close> (the \<^verbatim>\<open>HAVE_TIMER\<close> build).\<close>

definition jl_profile_stop_timer :: "listener_env \<Rightarrow> nat \<Rightarrow> listener \<Rightarrow> listener" where
  "jl_profile_stop_timer E i s =
     (if running s \<noteq> 0
      then (lemit TimerDelete s)\<lparr>last_timer_delete_time := jl_hrtime E i, running := 0\<rparr>
      else s)"

text \<open>
  The six stores after the backtrace in the profile buffer, each at
  \<^verbatim>\<open>bt_data_prof[bt_size_cur++]\<close>.
\<close>

definition store_prof :: "jl_bt_element \<Rightarrow> listener \<Rightarrow> listener" where
  "store_prof v s =
     s\<lparr>bt_data_prof := (bt_data_prof s)(bt_size_cur s := v), bt_size_cur := bt_size_cur s + 1\<rparr>"

text \<open>
  The body of the loop of \<^verbatim>\<open>signal_listener\<close> for thread \<open>i\<close> (source lines 847 to 904).
  The sizes passed to \<^verbatim>\<open>rec_backtrace_ctx\<close> are computed in \<^verbatim>\<open>int\<close> and
  \<^verbatim>\<open>size_t\<close> and converted to \<^verbatim>\<open>size_t\<close>.
\<close>

definition sample_thread ::
    "listener_env \<Rightarrow> bool \<Rightarrow> bool \<Rightarrow> int \<Rightarrow> nat \<Rightarrow> listener \<Rightarrow> listener" where
  "sample_thread E critical profile sg i s =
     (let s1 = lemit (SuspendThread i) s in
      case suspended_context E i of
        None \<Rightarrow> s1
      | Some signal_context \<Rightarrow>
          let s2 =
                (if critical
                 then
                   let maxsize = nat ((int (JL_MAX_BT_SIZE E) div int (jl_n_threads E) - 1) mod 2 ^ 64);
                       bt = rec_backtrace_ctx E maxsize signal_context;
                       n = listener_bt_size s1 + length bt
                   in s1\<lparr>bt_data := (write_at (bt_data s1) (listener_bt_size s1) bt)(n := uintptr 0),
                         listener_bt_size := n + 1\<rparr>
                 else s1);
              s3 =
                (if profile \<and> running s2 \<noteq> 0
                 then
                   if jl_profile_is_buffer_full E (bt_size_cur s2) (bt_size_max s2)
                   then jl_profile_stop_timer E i s2
                   else
                     let s4 = lemit SetSafeRestore s2;
                         s5 =
                           (if unwind_faults E signal_context
                            then lemit (Warning
                                   (''WARNING: profiler attempt to access an invalid memory location'' @
                                    [CHR 0x0A])) s4
                            else
                              let maxsize =
                                    nat ((int (bt_size_max s4) - int (bt_size_cur s4) - 1) mod 2 ^ 64);
                                  bt = rec_backtrace_ctx E maxsize signal_context
                              in s4\<lparr>bt_data_prof := write_at (bt_data_prof s4) (bt_size_cur s4) bt,
                                    bt_size_cur := bt_size_cur s4 + length bt\<rparr>);
                         s6 = lemit ResetSafeRestore s5;
                         ptls2 = jl_all_tls_states E i
                     in store_prof (uintptr 0)
                         (store_prof (uintptr 0)
                           (store_prof (uintptr (word_of_int (sleep_check_state ptls2 + 1)))
                             (store_prof (uintptr (cycleclock E i))
                               (store_prof (jlvalue (ptls_current_task ptls2))
                                 (store_prof (uintptr (word_of_int (ptls_tid ptls2 + 1))) s6)))))
                 else s2)
          in lemit (ResumeThread i sg) s3)"

text \<open>
  The loop \<^verbatim>\<open>for (int idx = jl_n_threads; idx-- > 0; )\<close> with \<open>idx\<close> threads still to
  visit, and the pass around it (source lines 839 to 907).
\<close>

fun sample_threads ::
    "listener_env \<Rightarrow> bool \<Rightarrow> bool \<Rightarrow> int \<Rightarrow> nat \<Rightarrow> listener \<Rightarrow> listener" where
  "sample_threads E critical profile sg 0 s = s"
| "sample_threads E critical profile sg (Suc idx) s =
     sample_threads E critical profile sg idx
       (sample_thread E critical profile sg (if profile then randperm E idx else idx) s)"

definition sample_pass :: "listener_env \<Rightarrow> bool \<Rightarrow> bool \<Rightarrow> int \<Rightarrow> listener \<Rightarrow> listener" where
  "sample_pass E critical profile sg s =
     (if critical \<or> profile
      then
        let s1 = lemit LockProfile s;
            s2 = (if profile then lemit GetRandperm s1 else s1)
        in lemit UnlockProfile (sample_threads E critical profile sg (jl_n_threads E) s2)
      else s)"

text \<open>The entries of the profile buffer between two cursors.\<close>

definition prof_entries :: "listener \<Rightarrow> nat \<Rightarrow> nat \<Rightarrow> jl_bt_element list" where
  "prof_entries s a b = map (bt_data_prof s) [a..<b]"

text \<open>
  C9 counts the entries that follow the backtrace in a thread's record; \<open>trailer\<close> is the list
  the code stores.
\<close>

definition trailer :: "listener_env \<Rightarrow> nat \<Rightarrow> jl_bt_element list" where
  "trailer E i =
     [uintptr (word_of_int (ptls_tid (jl_all_tls_states E i) + 1)),
      jlvalue (ptls_current_task (jl_all_tls_states E i)),
      uintptr (cycleclock E i),
      uintptr (word_of_int (sleep_check_state (jl_all_tls_states E i) + 1)),
      uintptr 0,
      uintptr 0]"

text \<open>
  Three threads; thread 2 is suspended at a context whose unwinding finds two frames.  The
  profile buffer is empty and holds 1000 entries; it counts as full when fewer than 100 are
  free.
\<close>

definition env0 :: listener_env where
  "env0 =
     \<lparr>jl_n_threads = 3,
      randperm = (\<lambda>k. (k + 1) mod 3),
      suspended_context = (\<lambda>i. if i = 2 then Some 0x7000 else None),
      frames = (\<lambda>c. [uintptr 0x401000, uintptr 0x402000]),
      unwind_faults = (\<lambda>c. False),
      jl_all_tls_states =
        (\<lambda>i. \<lparr>ptls_tid = int i, ptls_current_task = 0x9000 + of_nat i, sleep_check_state = 0\<rparr>),
      cycleclock = (\<lambda>i. 12345),
      jl_hrtime = (\<lambda>i. 777),
      JL_MAX_BT_SIZE = 80000,
      jl_profile_is_buffer_full = (\<lambda>cur mx. cur + 100 > mx)\<rparr>"

definition listener0 :: listener where
  "listener0 =
     \<lparr>running = 1, bt_data_prof = (\<lambda>j. uintptr 0), bt_size_cur = 0, bt_size_max = 1000,
      bt_data = (\<lambda>j. uintptr 0), listener_bt_size = 0, last_timer_delete_time = 0,
      ltrace = []\<rparr>"

section \<open>The per-thread signal rendezvous (signals-unix.c)\<close>

text \<open>
  \<^verbatim>\<open>jl_thread_suspend_and_get_state\<close> and \<^verbatim>\<open>jl_thread_resume\<close>, run by the signal
  listener, against \<^verbatim>\<open>usr2_handler\<close>, run by the target thread when \<^verbatim>\<open>SIGUSR2\<close> is
  delivered to it.  One step of a thread is one statement of the source: a mutex or condition
  variable operation, or one atomic access of the target's \<^verbatim>\<open>signal_request\<close>.  A wait
  on a condition variable releases \<^verbatim>\<open>in_signal_lock\<close> and blocks in one step; the waiter
  goes on when a broadcast (or, for the timed wait, the timeout) has reached it and it has
  taken the mutex again.  Wakeups without a broadcast are not part of the model.  A round
  is one call of \<^verbatim>\<open>jl_thread_suspend_and_get_state\<close> with what follows it; it starts with
  the target quiescent (\<open>quiescent\<close> below), and nobody else stores to
  \<^verbatim>\<open>signal_request\<close> during the round.
\<close>

datatype actor = Listener | Target

datatype l_pc =
    L_idle
  | L_lock
  | L_store
  | L_kill
  | L_timedwait
  | L_timedwaiting
  | L_reacquire
  | L_cas
  | L_fail_unlock
  | L_wait_again
  | L_waiting_again
  | L_reacquire_again
  | L_load
  | L_suspended "unw_context option"
  | L_skipped
  | L_rstore
  | L_rbroadcast
  | L_rwait
  | L_rwaiting
  | L_rreacquire
  | L_rload
  | L_runlock
  | L_resumed
  | L_failed

datatype t_pc =
    T_run
  | H_xchg1
  | H_lock
  | H_setctx
  | H_xchg2
  | H_broadcast1
  | H_wait
  | H_waiting
  | H_reacquire
  | H_xchg3
  | H_broadcast2
  | H_unlock
  | H_xchg_else
  | H_tail
  | T_failed

datatype tail_action = Sigint_request | Exit_thread0

text \<open>
  The shared state (\<^verbatim>\<open>signal_request\<close> of the target, \<^verbatim>\<open>in_signal_lock\<close>,
  \<^verbatim>\<open>signal_context\<close>, whether a \<^verbatim>\<open>SIGUSR2\<close> is pending for the target), the program
  counters, and the local variables: the listener's \<^verbatim>\<open>err\<close> (true for
  \<^verbatim>\<open>ETIMEDOUT\<close>) and the \<^verbatim>\<open>request\<close> of its compare-and-swap, the handler's
  \<^verbatim>\<open>request\<close>.  \<open>l_waits\<close> counts the waits on \<^verbatim>\<open>signal_caught_cond\<close> that the
  listener has come back from; \<open>t_tail\<close> records what the handler did after the rendezvous.
\<close>

record rv_sys =
  signal_request :: int
  in_signal_lock :: "actor option"
  signal_context :: "unw_context option"
  sigusr2_pending :: bool
  lpc :: l_pc
  tpc :: t_pc
  l_err :: bool
  l_request :: int
  l_waits :: nat
  t_request :: int
  t_tail :: "tail_action option"

definition rv_init :: rv_sys where
  "rv_init =
     \<lparr>signal_request = 0, in_signal_lock = None, signal_context = None, sigusr2_pending = False,
      lpc = L_idle, tpc = T_run, l_err = False, l_request = 1, l_waits = 0, t_request = 0,
      t_tail = None\<rparr>"

text \<open>
  The target is quiescent when a call of \<^verbatim>\<open>jl_thread_suspend_and_get_state\<close> begins:
  its \<^verbatim>\<open>signal_request\<close> is 0, no \<^verbatim>\<open>SIGUSR2\<close> is pending for it, it is outside the
  handler and the mutex is free.  The context of an earlier round may still be in
  \<^verbatim>\<open>signal_context\<close>, and the local variables hold anything.
\<close>

definition quiescent :: "rv_sys \<Rightarrow> bool" where
  "quiescent s =
     (signal_request s = 0 \<and> in_signal_lock s = None \<and> \<not> sigusr2_pending s \<and>
      lpc s = L_idle \<and> tpc s = T_run \<and> t_tail s = None)"

text \<open>
  A broadcast on \<^verbatim>\<open>signal_caught_cond\<close> reaches the listener if it waits there; a
  broadcast on \<^verbatim>\<open>exit_signal_cond\<close> reaches the handler if it waits there.
\<close>

definition broadcast_caught :: "rv_sys \<Rightarrow> rv_sys" where
  "broadcast_caught s =
     (if lpc s = L_timedwaiting then s\<lparr>lpc := L_reacquire, l_err := False\<rparr>
      else if lpc s = L_waiting_again then s\<lparr>lpc := L_reacquire_again\<rparr>
      else if lpc s = L_rwaiting then s\<lparr>lpc := L_rreacquire\<rparr>
      else s)"

definition broadcast_exit :: "rv_sys \<Rightarrow> rv_sys" where
  "broadcast_exit s = (if tpc s = H_waiting then s\<lparr>tpc := H_reacquire\<rparr> else s)"

text \<open>
  One step of the listener: \<^verbatim>\<open>jl_thread_suspend_and_get_state\<close>, then, when a context
  came back, \<^verbatim>\<open>jl_thread_resume(tid, sg)\<close>; when \<^verbatim>\<open>NULL\<close> came back the caller skips
  the thread.
\<close>

definition listener_step :: "int \<Rightarrow> rv_sys \<Rightarrow> rv_sys option" where
  "listener_step sg s =
     (case lpc s of
        L_idle \<Rightarrow> Some (s\<lparr>lpc := L_lock, l_err := False, l_request := 1, l_waits := 0\<rparr>)
      | L_lock \<Rightarrow>
          if in_signal_lock s = None
          then Some (s\<lparr>in_signal_lock := Some Listener, lpc := L_store\<rparr>) else None
      | L_store \<Rightarrow> Some (s\<lparr>signal_request := 1, lpc := L_kill\<rparr>)
      | L_kill \<Rightarrow> Some (s\<lparr>sigusr2_pending := True, lpc := L_timedwait\<rparr>)
      | L_timedwait \<Rightarrow> Some (s\<lparr>in_signal_lock := None, lpc := L_timedwaiting\<rparr>)
      | L_timedwaiting \<Rightarrow> None
      | L_reacquire \<Rightarrow>
          if in_signal_lock s = None
          then Some (s\<lparr>in_signal_lock := Some Listener, l_waits := l_waits s + 1,
                       lpc := (if l_err s then L_cas else L_load)\<rparr>)
          else None
      | L_cas \<Rightarrow>
          if signal_request s = 1
          then Some (s\<lparr>signal_request := 0, lpc := L_fail_unlock\<rparr>)
          else Some (s\<lparr>l_request := signal_request s,
                       lpc := (if signal_request s = - 1 then L_wait_again else L_load)\<rparr>)
      | L_fail_unlock \<Rightarrow> Some (s\<lparr>in_signal_lock := None, lpc := L_suspended None\<rparr>)
      | L_wait_again \<Rightarrow> Some (s\<lparr>in_signal_lock := None, lpc := L_waiting_again\<rparr>)
      | L_waiting_again \<Rightarrow> None
      | L_reacquire_again \<Rightarrow>
          if in_signal_lock s = None
          then Some (s\<lparr>in_signal_lock := Some Listener, l_waits := l_waits s + 1, lpc := L_load\<rparr>)
          else None
      | L_load \<Rightarrow>
          if signal_request s = 0 then Some (s\<lparr>lpc := L_suspended (signal_context s)\<rparr>)
          else Some (s\<lparr>lpc := L_failed\<rparr>)
      | L_suspended None \<Rightarrow> Some (s\<lparr>lpc := L_skipped\<rparr>)
      | L_suspended (Some c) \<Rightarrow> Some (s\<lparr>lpc := L_rstore\<rparr>)
      | L_skipped \<Rightarrow> None
      | L_rstore \<Rightarrow> Some (s\<lparr>signal_request := (if sg = - 1 then 3 else 1), lpc := L_rbroadcast\<rparr>)
      | L_rbroadcast \<Rightarrow> Some ((broadcast_exit s)\<lparr>lpc := L_rwait\<rparr>)
      | L_rwait \<Rightarrow> Some (s\<lparr>in_signal_lock := None, lpc := L_rwaiting\<rparr>)
      | L_rwaiting \<Rightarrow> None
      | L_rreacquire \<Rightarrow>
          if in_signal_lock s = None
          then Some (s\<lparr>in_signal_lock := Some Listener, lpc := L_rload\<rparr>) else None
      | L_rload \<Rightarrow>
          if signal_request s = 0 then Some (s\<lparr>lpc := L_runlock\<rparr>)
          else Some (s\<lparr>lpc := L_failed\<rparr>)
      | L_runlock \<Rightarrow> Some (s\<lparr>in_signal_lock := None, lpc := L_resumed\<rparr>)
      | L_resumed \<Rightarrow> None
      | L_failed \<Rightarrow> None)"

text \<open>
  The timed wait gives up: \<^verbatim>\<open>pthread_cond_timedwait\<close> is going to return
  \<^verbatim>\<open>ETIMEDOUT\<close>, also when a broadcast came at the same moment.
\<close>

definition timeout_step :: "rv_sys \<Rightarrow> rv_sys option" where
  "timeout_step s =
     (if lpc s = L_timedwaiting \<or> (lpc s = L_reacquire \<and> \<not> l_err s)
      then Some (s\<lparr>lpc := L_reacquire, l_err := True\<rparr>) else None)"

text \<open>
  One step of the target thread, whose handler would publish the context \<open>ctx\<close>.  The
  signal is delivered while the thread runs outside the handler; \<open>has_task\<close> says whether
  \<^verbatim>\<open>jl_get_current_task()\<close> and its \<^verbatim>\<open>ptls\<close> are set, without which the handler
  returns at once.  What the handler does with requests 2 and 3 after the rendezvous is
  recorded, not run.
\<close>

definition target_step :: "bool \<Rightarrow> unw_context \<Rightarrow> rv_sys \<Rightarrow> rv_sys option" where
  "target_step has_task ctx s =
     (case tpc s of
        T_run \<Rightarrow>
          if sigusr2_pending s
          then Some (s\<lparr>sigusr2_pending := False, tpc := (if has_task then H_xchg1 else T_run)\<rparr>)
          else None
      | H_xchg1 \<Rightarrow>
          Some (s\<lparr>t_request := signal_request s, signal_request := - 1,
                  tpc := (if signal_request s = 1 then H_lock else H_xchg_else)\<rparr>)
      | H_lock \<Rightarrow>
          if in_signal_lock s = None
          then Some (s\<lparr>in_signal_lock := Some Target, tpc := H_setctx\<rparr>) else None
      | H_setctx \<Rightarrow> Some (s\<lparr>signal_context := Some ctx, tpc := H_xchg2\<rparr>)
      | H_xchg2 \<Rightarrow>
          Some (s\<lparr>t_request := signal_request s, signal_request := 0,
                  tpc := (if signal_request s = - 1 then H_broadcast1 else T_failed)\<rparr>)
      | H_broadcast1 \<Rightarrow> Some ((broadcast_caught s)\<lparr>tpc := H_wait\<rparr>)
      | H_wait \<Rightarrow> Some (s\<lparr>in_signal_lock := None, tpc := H_waiting\<rparr>)
      | H_waiting \<Rightarrow> None
      | H_reacquire \<Rightarrow>
          if in_signal_lock s = None
          then Some (s\<lparr>in_signal_lock := Some Target, tpc := H_xchg3\<rparr>) else None
      | H_xchg3 \<Rightarrow>
          Some (s\<lparr>t_request := signal_request s, signal_request := 0,
                  tpc := (if signal_request s = 1 \<or> signal_request s = 3
                          then H_broadcast2 else T_failed)\<rparr>)
      | H_broadcast2 \<Rightarrow> Some ((broadcast_caught s)\<lparr>tpc := H_unlock\<rparr>)
      | H_unlock \<Rightarrow> Some (s\<lparr>in_signal_lock := None, tpc := H_tail\<rparr>)
      | H_xchg_else \<Rightarrow> Some (s\<lparr>signal_request := 0, tpc := H_tail\<rparr>)
      | H_tail \<Rightarrow>
          Some (s\<lparr>t_tail := (if t_request s = 2 then Some Sigint_request
                              else if t_request s = 3 then Some Exit_thread0 else None),
                  tpc := T_run\<rparr>)
      | T_failed \<Rightarrow> None)"

text \<open>
  Who moves next.  A state is reachable from \<open>s0\<close> when some schedule leads to it from there;
  \<open>rv_run\<close> follows a given schedule.
\<close>

datatype move = Listener_moves | Target_moves | Timeout

definition rv_step :: "int \<Rightarrow> bool \<Rightarrow> unw_context \<Rightarrow> move \<Rightarrow> rv_sys \<Rightarrow> rv_sys option" where
  "rv_step sg has_task ctx m s =
     (case m of
        Listener_moves \<Rightarrow> listener_step sg s
      | Target_moves \<Rightarrow> target_step has_task ctx s
      | Timeout \<Rightarrow> timeout_step s)"

inductive rv_reachable :: "int \<Rightarrow> bool \<Rightarrow> unw_context \<Rightarrow> rv_sys \<Rightarrow> rv_sys \<Rightarrow> bool"
  for sg has_task ctx s0 where
  rv_start: "rv_reachable sg has_task ctx s0 s0"
| rv_next: "rv_reachable sg has_task ctx s0 s \<Longrightarrow> rv_step sg has_task ctx m s = Some s' \<Longrightarrow>
            rv_reachable sg has_task ctx s0 s'"

fun rv_run :: "int \<Rightarrow> bool \<Rightarrow> unw_context \<Rightarrow> move list \<Rightarrow> rv_sys \<Rightarrow> rv_sys option" where
  "rv_run sg has_task ctx [] s = Some s"
| "rv_run sg has_task ctx (m # ms) s =
     (case rv_step sg has_task ctx m s of None \<Rightarrow> None | Some s' \<Rightarrow> rv_run sg has_task ctx ms s')"

text \<open>The value \<^verbatim>\<open>jl_thread_resume(tid, sg)\<close> stores.\<close>

definition resume_request :: "int \<Rightarrow> int" where
  "resume_request sg = (if sg = - 1 then 3 else 1)"

text \<open>The target before it has taken the mutex, while the request is still posted.\<close>

definition approaching :: "bool \<Rightarrow> rv_sys \<Rightarrow> bool" where
  "approaching has_task s =
     ((tpc s = T_run \<and> sigusr2_pending s \<and> signal_request s = 1) \<or>
      (tpc s = T_run \<and> \<not> sigusr2_pending s \<and> signal_request s = 1 \<and> \<not> has_task) \<or>
      (tpc s = H_xchg1 \<and> \<not> sigusr2_pending s \<and> signal_request s = 1 \<and> has_task) \<or>
      (tpc s = H_lock \<and> \<not> sigusr2_pending s \<and> signal_request s = - 1 \<and> t_request s = 1))"

text \<open>The target before the request is posted.\<close>

definition untouched :: "rv_sys \<Rightarrow> bool" where
  "untouched s =
     (tpc s = T_run \<and> \<not> sigusr2_pending s \<and> t_tail s = None)"

text \<open>The handler with the mutex, on its way to the wait on \<^verbatim>\<open>exit_signal_cond\<close>.\<close>

definition publishing :: "unw_context \<Rightarrow> rv_sys \<Rightarrow> bool" where
  "publishing ctx s =
     (in_signal_lock s = Some Target \<and> \<not> sigusr2_pending s \<and>
      ((tpc s = H_setctx \<and> signal_request s = - 1) \<or>
       (tpc s = H_xchg2 \<and> signal_request s = - 1 \<and> signal_context s = Some ctx) \<or>
       (tpc s = H_broadcast1 \<and> signal_request s = 0 \<and> signal_context s = Some ctx)))"

text \<open>The handler after its first broadcast, about to wait or waiting.\<close>

definition acknowledged :: "unw_context \<Rightarrow> rv_sys \<Rightarrow> bool" where
  "acknowledged ctx s =
     (\<not> sigusr2_pending s \<and> signal_request s = 0 \<and> signal_context s = Some ctx \<and>
      ((tpc s = H_wait \<and> in_signal_lock s = Some Target) \<or>
       (tpc s = H_waiting \<and> in_signal_lock s = None)))"

text \<open>The handler waiting on \<^verbatim>\<open>exit_signal_cond\<close> while the listener holds the mutex.\<close>

definition parked :: "unw_context \<Rightarrow> rv_sys \<Rightarrow> bool" where
  "parked ctx s =
     (\<not> sigusr2_pending s \<and> signal_request s = 0 \<and> signal_context s = Some ctx \<and>
      tpc s = H_waiting \<and> in_signal_lock s = Some Listener)"

text \<open>The target after the listener has withdrawn the request.\<close>

definition withdrawn :: "rv_sys \<Rightarrow> bool" where
  "withdrawn s =
     (in_signal_lock s \<noteq> Some Target \<and> t_tail s = None \<and>
      ((tpc s = T_run \<and> signal_request s = 0) \<or>
       (tpc s = H_xchg1 \<and> \<not> sigusr2_pending s \<and> signal_request s = 0) \<or>
       (tpc s = H_xchg_else \<and> \<not> sigusr2_pending s \<and> signal_request s = - 1 \<and> t_request s = 0) \<or>
       (tpc s = H_tail \<and> \<not> sigusr2_pending s \<and> signal_request s = 0 \<and> t_request s = 0)))"

text \<open>How the listener came to its acquire load.\<close>

definition came_by :: "rv_sys \<Rightarrow> bool" where
  "came_by s =
     ((\<not> l_err s \<and> l_waits s = 1) \<or>
      (l_err s \<and> l_request s = 0 \<and> l_waits s = 1) \<or>
      (l_err s \<and> l_request s = - 1 \<and> l_waits s = 2))"

text \<open>The handler after the resume.\<close>

definition leaving :: "int \<Rightarrow> rv_sys \<Rightarrow> bool" where
  "leaving sg s =
     (\<not> sigusr2_pending s \<and> signal_request s = 0 \<and> t_request s = resume_request sg \<and>
      ((tpc s = H_tail \<and> t_tail s = None) \<or>
       (tpc s = T_run \<and>
        t_tail s = (if resume_request sg = 3 then Some Exit_thread0 else None))))"

text \<open>
  What holds at each statement of the listener: who has the mutex, where the target is and
  what \<^verbatim>\<open>signal_request\<close> contains.  No assertion of either thread has failed.
\<close>

definition rv_inv :: "int \<Rightarrow> bool \<Rightarrow> unw_context \<Rightarrow> rv_sys \<Rightarrow> bool" where
  "rv_inv sg has_task ctx s =
     (tpc s \<noteq> T_failed \<and>
      (case lpc s of
        L_idle \<Rightarrow> in_signal_lock s = None \<and> signal_request s = 0 \<and> untouched s
      | L_lock \<Rightarrow>
          in_signal_lock s = None \<and> signal_request s = 0 \<and> untouched s \<and>
          l_request s = 1 \<and> l_waits s = 0
      | L_store \<Rightarrow>
          in_signal_lock s = Some Listener \<and> signal_request s = 0 \<and> untouched s \<and>
          l_request s = 1 \<and> l_waits s = 0
      | L_kill \<Rightarrow>
          in_signal_lock s = Some Listener \<and> signal_request s = 1 \<and> untouched s \<and>
          l_request s = 1 \<and> l_waits s = 0
      | L_timedwait \<Rightarrow>
          in_signal_lock s = Some Listener \<and> approaching has_task s \<and> l_waits s = 0 \<and>
          l_request s = 1 \<and> t_tail s = None
      | L_timedwaiting \<Rightarrow>
          l_waits s = 0 \<and> l_request s = 1 \<and> t_tail s = None \<and>
          ((in_signal_lock s = None \<and> approaching has_task s) \<or> publishing ctx s)
      | L_reacquire \<Rightarrow>
          l_waits s = 0 \<and> l_request s = 1 \<and> t_tail s = None \<and>
          ((l_err s \<and> ((in_signal_lock s = None \<and> approaching has_task s) \<or> publishing ctx s)) \<or>
           acknowledged ctx s)
      | L_cas \<Rightarrow>
          in_signal_lock s = Some Listener \<and> l_err s \<and> l_waits s = 1 \<and> t_tail s = None \<and>
          l_request s = 1 \<and> (approaching has_task s \<or> parked ctx s)
      | L_fail_unlock \<Rightarrow>
          in_signal_lock s = Some Listener \<and> l_err s \<and> l_waits s = 1 \<and> l_request s = 1 \<and>
          withdrawn s
      | L_suspended None \<Rightarrow>
          in_signal_lock s = None \<and> l_err s \<and> l_waits s = 1 \<and> l_request s = 1 \<and> withdrawn s
      | L_skipped \<Rightarrow>
          in_signal_lock s = None \<and> l_err s \<and> l_waits s = 1 \<and> l_request s = 1 \<and> withdrawn s
      | L_wait_again \<Rightarrow>
          in_signal_lock s = Some Listener \<and> l_err s \<and> l_waits s = 1 \<and> l_request s = - 1 \<and>
          t_tail s = None \<and> approaching has_task s \<and> tpc s = H_lock
      | L_waiting_again \<Rightarrow>
          l_err s \<and> l_waits s = 1 \<and> l_request s = - 1 \<and> t_tail s = None \<and>
          ((in_signal_lock s = None \<and> approaching has_task s \<and> tpc s = H_lock) \<or>
           publishing ctx s)
      | L_reacquire_again \<Rightarrow>
          l_err s \<and> l_waits s = 1 \<and> l_request s = - 1 \<and> t_tail s = None \<and> acknowledged ctx s
      | L_load \<Rightarrow> parked ctx s \<and> came_by s \<and> t_tail s = None
      | L_suspended (Some c) \<Rightarrow> c = ctx \<and> parked ctx s \<and> came_by s \<and> t_tail s = None
      | L_rstore \<Rightarrow> parked ctx s \<and> came_by s \<and> t_tail s = None
      | L_rbroadcast \<Rightarrow>
          in_signal_lock s = Some Listener \<and> came_by s \<and> t_tail s = None \<and>
          \<not> sigusr2_pending s \<and> tpc s = H_waiting \<and> signal_request s = resume_request sg
      | L_rwait \<Rightarrow>
          in_signal_lock s = Some Listener \<and> came_by s \<and> t_tail s = None \<and>
          \<not> sigusr2_pending s \<and> tpc s = H_reacquire \<and> signal_request s = resume_request sg
      | L_rwaiting \<Rightarrow>
          came_by s \<and> t_tail s = None \<and> \<not> sigusr2_pending s \<and>
          ((in_signal_lock s = None \<and> tpc s = H_reacquire \<and>
            signal_request s = resume_request sg) \<or>
           (in_signal_lock s = Some Target \<and> tpc s = H_xchg3 \<and>
            signal_request s = resume_request sg) \<or>
           (in_signal_lock s = Some Target \<and> tpc s = H_broadcast2 \<and> signal_request s = 0 \<and>
            t_request s = resume_request sg))
      | L_rreacquire \<Rightarrow>
          came_by s \<and>
          ((in_signal_lock s = Some Target \<and> tpc s = H_unlock \<and> t_tail s = None \<and>
            \<not> sigusr2_pending s \<and> signal_request s = 0 \<and> t_request s = resume_request sg) \<or>
           (in_signal_lock s = None \<and> leaving sg s))
      | L_rload \<Rightarrow> came_by s \<and> in_signal_lock s = Some Listener \<and> leaving sg s
      | L_runlock \<Rightarrow> came_by s \<and> in_signal_lock s = Some Listener \<and> leaving sg s
      | L_resumed \<Rightarrow> came_by s \<and> in_signal_lock s = None \<and> leaving sg s
      | L_failed \<Rightarrow> False))"

text \<open>
  A measure of what is still to do, which every step lowers: the listener's statements in the
  order it goes through them, the handler's likewise.  The target outside the handler counts
  as not yet started while the listener has not sent the signal (\<open>posting\<close>).
\<close>

fun l_rank :: "l_pc \<Rightarrow> bool \<Rightarrow> nat" where
  "l_rank L_idle e = 30"
| "l_rank L_lock e = 29"
| "l_rank L_store e = 28"
| "l_rank L_kill e = 27"
| "l_rank L_timedwait e = 26"
| "l_rank L_timedwaiting e = 25"
| "l_rank L_reacquire e = (if e then 23 else 24)"
| "l_rank L_cas e = 22"
| "l_rank L_wait_again e = 21"
| "l_rank L_waiting_again e = 20"
| "l_rank L_reacquire_again e = 19"
| "l_rank L_load e = 18"
| "l_rank (L_suspended (Some c)) e = 17"
| "l_rank L_rstore e = 16"
| "l_rank L_rbroadcast e = 15"
| "l_rank L_rwait e = 14"
| "l_rank L_rwaiting e = 13"
| "l_rank L_rreacquire e = 12"
| "l_rank L_rload e = 11"
| "l_rank L_runlock e = 10"
| "l_rank L_resumed e = 9"
| "l_rank L_fail_unlock e = 3"
| "l_rank (L_suspended None) e = 2"
| "l_rank L_skipped e = 1"
| "l_rank L_failed e = 0"

fun posting :: "l_pc \<Rightarrow> bool" where
  "posting L_idle = True"
| "posting L_lock = True"
| "posting L_store = True"
| "posting L_kill = True"
| "posting p = False"

fun t_rank :: "t_pc \<Rightarrow> bool \<Rightarrow> bool \<Rightarrow> nat" where
  "t_rank T_run pending early = (if early then 18 else if pending then 17 else 0)"
| "t_rank H_xchg1 pending early = 15"
| "t_rank H_lock pending early = 14"
| "t_rank H_setctx pending early = 13"
| "t_rank H_xchg2 pending early = 12"
| "t_rank H_broadcast1 pending early = 11"
| "t_rank H_wait pending early = 10"
| "t_rank H_waiting pending early = 9"
| "t_rank H_reacquire pending early = 8"
| "t_rank H_xchg3 pending early = 7"
| "t_rank H_broadcast2 pending early = 6"
| "t_rank H_unlock pending early = 5"
| "t_rank H_xchg_else pending early = 4"
| "t_rank H_tail pending early = 3"
| "t_rank T_failed pending early = 0"

definition rv_rank :: "rv_sys \<Rightarrow> nat" where
  "rv_rank s = l_rank (lpc s) (l_err s) + t_rank (tpc s) (sigusr2_pending s) (posting (lpc s))"

text \<open>
  \<open>rv_inevitable sg has_task ctx P s\<close>: from \<open>s\<close>, whoever moves, a state with \<open>P\<close> is
  reached, and no state before it is stuck.
\<close>

inductive rv_inevitable :: "int \<Rightarrow> bool \<Rightarrow> unw_context \<Rightarrow> (rv_sys \<Rightarrow> bool) \<Rightarrow> rv_sys \<Rightarrow> bool"
  for sg has_task ctx P where
  rv_now: "P s \<Longrightarrow> rv_inevitable sg has_task ctx P s"
| rv_later: "\<exists>m s'. rv_step sg has_task ctx m s = Some s' \<Longrightarrow>
             \<forall>m s'. rv_step sg has_task ctx m s = Some s' \<longrightarrow> rv_inevitable sg has_task ctx P s' \<Longrightarrow>
             rv_inevitable sg has_task ctx P s"

text \<open>
  \<^verbatim>\<open>jl_thread_suspend_and_get_state\<close> has returned the context; \<^verbatim>\<open>jl_thread_resume\<close>
  has returned.
\<close>

definition suspend_returns :: "unw_context \<Rightarrow> rv_sys \<Rightarrow> bool" where
  "suspend_returns ctx s =
     (lpc s = L_suspended (Some ctx) \<and> signal_request s = 0 \<and> in_signal_lock s = Some Listener)"

definition resume_returns :: "rv_sys \<Rightarrow> bool" where
  "resume_returns s = (lpc s = L_resumed \<and> signal_request s = 0 \<and> in_signal_lock s = None)"

text \<open>The statements of \<^verbatim>\<open>jl_thread_resume\<close>, and those of the second wait of the suspend.\<close>

definition resuming :: "l_pc \<Rightarrow> bool" where
  "resuming p =
     (p = L_rstore \<or> p = L_rbroadcast \<or> p = L_rwait \<or> p = L_rwaiting \<or> p = L_rreacquire \<or>
      p = L_rload \<or> p = L_runlock)"

definition waiting_again :: "l_pc \<Rightarrow> bool" where
  "waiting_again p =
     (p = L_wait_again \<or> p = L_waiting_again \<or> p = L_reacquire_again \<or> p = L_load)"

text \<open>The suspend has returned some context.\<close>

definition returned_context :: "rv_sys \<Rightarrow> bool" where
  "returned_context s = (case lpc s of L_suspended (Some c) \<Rightarrow> True | _ \<Rightarrow> False)"

text \<open>
  Schedules: the listener posts the request and waits, the handler publishes the context and
  parks (\<open>suspend_schedule\<close>); the listener resumes it (\<open>resume_schedule\<close>); the wait times
  out before the signal is delivered (\<open>timeout_schedule\<close>); the wait times out when the
  handler has just acknowledged the request (\<open>late_schedule\<close>), and the handler goes on from
  there (\<open>late_handler_schedule\<close>).
\<close>

definition suspend_schedule :: "move list" where
  "suspend_schedule =
     replicate 5 Listener_moves @ replicate 7 Target_moves @ replicate 2 Listener_moves"

definition resume_schedule :: "move list" where
  "resume_schedule =
     replicate 4 Listener_moves @ replicate 4 Target_moves @ replicate 3 Listener_moves @
     [Target_moves]"

definition timeout_schedule :: "move list" where
  "timeout_schedule = replicate 5 Listener_moves @ [Timeout, Listener_moves]"

definition late_schedule :: "move list" where
  "late_schedule =
     replicate 5 Listener_moves @ [Target_moves, Target_moves, Timeout, Listener_moves,
       Listener_moves]"

definition late_handler_schedule :: "move list" where
  "late_handler_schedule = Listener_moves # replicate 5 Target_moves @ replicate 2 Listener_moves"

text \<open>
  A quiescent state after earlier rounds: the context of the last round is still in
  \<^verbatim>\<open>signal_context\<close>, and the local variables have the values the last calls left.
\<close>

definition stale_start :: rv_sys where
  "stale_start =
     rv_init\<lparr>signal_context := Some 9, l_err := True, l_request := - 1, l_waits := 2,
       t_request := 3\<rparr>"

text \<open>
  The listener's loop comes to the thread again in a later pass: when a call has returned no
  context, or the resume has returned, the next call of
  \<^verbatim>\<open>jl_thread_suspend_and_get_state\<close> for the thread begins.  \<open>rv_second_call\<close> runs a
  first call from \<open>rv_init\<close> on one schedule and a second call on another.
\<close>

definition next_call :: "rv_sys \<Rightarrow> rv_sys option" where
  "next_call s =
     (if lpc s = L_skipped \<or> lpc s = L_resumed then Some (s\<lparr>lpc := L_idle\<rparr>) else None)"

definition rv_second_call ::
    "int \<Rightarrow> bool \<Rightarrow> unw_context \<Rightarrow> move list \<Rightarrow> move list \<Rightarrow> rv_sys option" where
  "rv_second_call sg has_task ctx first second =
     (case rv_run sg has_task ctx first rv_init of
        None \<Rightarrow> None
      | Some s \<Rightarrow>
          (case next_call s of
             None \<Rightarrow> None
           | Some s' \<Rightarrow> rv_run sg has_task ctx second s'))"

text \<open>Neither thread has a step, the timed wait is over, and no call is about to begin.\<close>

definition nobody_moves :: "int \<Rightarrow> bool \<Rightarrow> unw_context \<Rightarrow> rv_sys \<Rightarrow> bool" where
  "nobody_moves sg has_task ctx s =
     (case listener_step sg s of
        Some a \<Rightarrow> False
      | None \<Rightarrow>
          (case target_step has_task ctx s of
             Some b \<Rightarrow> False
           | None \<Rightarrow>
               (case timeout_step s of
                  Some c \<Rightarrow> False
                | None \<Rightarrow> (case next_call s of Some d \<Rightarrow> False | None \<Rightarrow> True))))"

text \<open>
  Schedules with a \<^verbatim>\<open>SIGUSR2\<close> still in flight.  In \<open>withdrawn_call\<close> the timed wait runs
  out before the signal is delivered, and the call takes the request back and returns no
  context; the signal stays pending.  The second call then meets the handler that this
  signal starts.  In \<open>stalled_call\<close> the handler, having found no request, is between its two
  exchanges when the call stores 1, so that its second exchange wipes the request out; the
  signal of the second call starts the handler once more, which again finds no request, and
  the timed wait runs out while that handler is between its exchanges.  In
  \<open>asserting_call\<close> the second handler starts between the compare-and-swap and the acquire
  load of the call.  In \<open>doubled_signal_call\<close> the late signal is delivered after the call
  has stored 1 and before it sends its own signal, so that the handler serves the request and
  the signal of the call starts the handler again once the round trip is over.
\<close>

definition withdrawn_call :: "move list" where
  "withdrawn_call = replicate 5 Listener_moves @ [Timeout] @ replicate 4 Listener_moves"

definition stalled_call :: "move list" where
  "stalled_call =
     [Target_moves, Target_moves, Listener_moves, Listener_moves, Listener_moves, Target_moves,
      Listener_moves, Listener_moves, Target_moves, Target_moves, Target_moves, Timeout,
      Listener_moves, Listener_moves, Listener_moves, Target_moves, Target_moves]"

definition asserting_call :: "move list" where
  "asserting_call =
     [Target_moves, Target_moves, Listener_moves, Listener_moves, Listener_moves, Target_moves,
      Listener_moves, Listener_moves, Target_moves, Timeout, Listener_moves, Listener_moves,
      Target_moves, Target_moves, Listener_moves]"

definition doubled_signal_call :: "move list" where
  "doubled_signal_call =
     [Listener_moves, Listener_moves, Listener_moves, Target_moves, Target_moves,
      Listener_moves, Listener_moves] @ replicate 5 Target_moves @
     replicate 6 Listener_moves @ replicate 4 Target_moves @
     [Listener_moves, Listener_moves, Target_moves, Target_moves, Target_moves, Listener_moves]"

section \<open>Properties of the safepoint pages\<close>

lemma bind_Inr [simp]: "bind (Inr x) f = f x"
  by (simp add: bind_def)

lemma bind_Inl [simp]: "bind (Inl e) f = Inl e"
  by (simp add: bind_def)

lemma emit_simps [simp]:
  "jl_signal_pending (emit e s) = jl_signal_pending s"
  "jl_gc_running (emit e s) = jl_gc_running s"
  "jl_safepoint_enable_cnt (emit e s) = jl_safepoint_enable_cnt s"
  "page_prot (emit e s) = page_prot s"
  "trace (emit e s) = trace s @ [e]"
  by (simp_all add: emit_def)

lemma mprotect_simps [simp]:
  "jl_signal_pending (mprotect i p s) = jl_signal_pending s"
  "jl_gc_running (mprotect i p s) = jl_gc_running s"
  "jl_safepoint_enable_cnt (mprotect i p s) = jl_safepoint_enable_cnt s"
  "page_prot (mprotect i p s) = (page_prot s)(i := p)"
  "trace (mprotect i p s) = trace s @ [Mprotect i p]"
  by (simp_all add: mprotect_def)

lemma store_release_simps [simp]:
  "jl_signal_pending (store_release v s) = jl_signal_pending s"
  "jl_gc_running (store_release v s) = v"
  "jl_safepoint_enable_cnt (store_release v s) = jl_safepoint_enable_cnt s"
  "page_prot (store_release v s) = page_prot s"
  "trace (store_release v s) = trace s @ [StoreRelease v]"
  by (simp_all add: store_release_def)

text \<open>
  What \<^verbatim>\<open>jl_safepoint_disable\<close> does on a valid slot: the assertion after the
  decrement compares an unsigned counter that is known to be nonzero with 0, so it never fails.
\<close>

lemma jl_safepoint_disable_valid:
  assumes "0 \<le> idx" "idx < 3"
  shows "jl_safepoint_disable idx s =
     Inr (let new = jl_safepoint_enable_cnt s (nat idx) - 1;
              s1 = s\<lparr>jl_safepoint_enable_cnt := (jl_safepoint_enable_cnt s)(nat idx := new)\<rparr>
          in if new \<noteq> 0 then s1 else mprotect (nat idx) PROT_READ s1)"
  using assms by (auto simp: jl_safepoint_disable_def Let_def word_gt_0)

lemma word8_le_2_cases: "(c :: 8 word) \<le> 2 \<longleftrightarrow> c = 0 \<or> c = 1 \<or> c = 2"
  unfolding word_le_nat_alt word_unat_eq_iff by (simp; arith)

lemma word8_le_1_cases: "(g :: 8 word) \<le> 1 \<longleftrightarrow> g = 0 \<or> g = 1"
  unfolding word_le_nat_alt word_unat_eq_iff by (simp; arith)

lemma jl_safepoint_enable_valid:
  assumes "0 \<le> idx" "idx < 3"
  shows "jl_safepoint_enable idx s =
     (let old = jl_safepoint_enable_cnt s (nat idx);
          s1 = s\<lparr>jl_safepoint_enable_cnt := (jl_safepoint_enable_cnt s)(nat idx := old + 1)\<rparr>
      in if old = 0 then Inr (mprotect (nat idx) PROT_NONE s1)
         else if old + 1 \<le> 2 then Inr s1 else Inl Assert_cnt_le_2)"
  using assms by (auto simp: jl_safepoint_enable_def Let_def)

subsection \<open>Enable counters and page protection (P1, S1)\<close>

text \<open>
  On a slot whose counter is at most 2 and whose page protection follows the counter, a
  returning \<^verbatim>\<open>jl_safepoint_enable\<close> and a \<^verbatim>\<open>jl_safepoint_disable\<close> of an enabled
  slot keep both properties.
\<close>

lemma enable_keeps_slot_ok:
  assumes "0 \<le> idx" "idx < 3" "slot_ok s (nat idx)" "jl_safepoint_enable idx s = Inr s'"
  shows "slot_ok s' (nat idx) \<and>
         jl_safepoint_enable_cnt s' (nat idx) = jl_safepoint_enable_cnt s (nat idx) + 1"
  using assms
  by (auto simp: jl_safepoint_enable_valid slot_ok_def prot_of_cnt_def Let_def word8_le_2_cases
      split: if_splits)

lemma disable_keeps_slot_ok:
  assumes "0 \<le> idx" "idx < 3" "slot_ok s (nat idx)" "jl_safepoint_enable_cnt s (nat idx) \<noteq> 0"
  shows "\<exists>s'. jl_safepoint_disable idx s = Inr s' \<and> slot_ok s' (nat idx) \<and>
           jl_safepoint_enable_cnt s' (nat idx) = jl_safepoint_enable_cnt s (nat idx) - 1"
  using assms
  by (auto simp: jl_safepoint_disable_valid slot_ok_def prot_of_cnt_def Let_def word8_le_2_cases
      split: if_splits)

text \<open>
  The part of P1 that holds: a sequence of calls that is properly nested, at most two deep,
  returns the counter to 0 and the page to read-only.
\<close>

lemma nested_calls_restore:
  assumes "0 \<le> idx" "idx < 3"
  shows "nested d cs \<Longrightarrow> d \<le> 2 \<Longrightarrow> slot_ok s (nat idx) \<Longrightarrow>
         jl_safepoint_enable_cnt s (nat idx) = of_nat d \<Longrightarrow>
         \<exists>s'. run_calls idx cs s = Inr s' \<and> jl_safepoint_enable_cnt s' (nat idx) = 0 \<and>
              page_prot s' (nat idx) = PROT_READ"
proof (induction cs arbitrary: d s)
  case Nil
  then show ?case by (simp add: slot_ok_def prot_of_cnt_def)
next
  case (Cons c cs)
  show ?case
  proof (cases c)
    case Enable
    with Cons.prems have d: "d < 2" and n: "nested (Suc d) cs" by simp_all
    from d Cons.prems have "\<exists>s1. jl_safepoint_enable idx s = Inr s1"
    proof -
      from d have "d = 0 \<or> d = 1" by arith
      then show ?thesis using Cons.prems assms
        by (auto simp: jl_safepoint_enable_valid Let_def)
    qed
    then obtain s1 where s1: "jl_safepoint_enable idx s = Inr s1" by blast
    from enable_keeps_slot_ok[OF assms Cons.prems(3) s1] Cons.prems(4)
    have ok: "slot_ok s1 (nat idx)" and c: "jl_safepoint_enable_cnt s1 (nat idx) = of_nat (Suc d)"
      by simp_all
    from Cons.IH[OF n _ ok c] d s1 Enable show ?thesis by simp
  next
    case Disable
    with Cons.prems have d: "0 < d" and n: "nested (d - 1) cs" by simp_all
    from d Cons.prems have nz: "jl_safepoint_enable_cnt s (nat idx) \<noteq> 0"
      by (cases "d = 1") (auto simp: le_Suc_eq numeral_2_eq_2)
    from disable_keeps_slot_ok[OF assms Cons.prems(3) nz] obtain s1 where
      s1: "jl_safepoint_disable idx s = Inr s1" and ok: "slot_ok s1 (nat idx)"
      and c: "jl_safepoint_enable_cnt s1 (nat idx) = jl_safepoint_enable_cnt s (nat idx) - 1"
      by blast
    from c d Cons.prems(4) have c': "jl_safepoint_enable_cnt s1 (nat idx) = of_nat (d - 1)"
      by (simp add: of_nat_diff)
    from Cons.IH[OF n _ ok c'] Cons.prems(2) s1 Disable show ?thesis by simp
  qed
qed


subsection \<open>Interrupt level (P3)\<close>

lemma consume_sigint_result:
  assumes "jl_signal_pending s \<in> {0, 1, 2}"
  shows "\<exists>r s'. jl_safepoint_consume_sigint s = Inr (r, s') \<and> jl_signal_pending s' = 0 \<and>
           r = (if 1 \<le> jl_signal_pending s then 1 else 0) \<and>
           jl_safepoint_enable_cnt s' 0 =
             jl_safepoint_enable_cnt s 0 - sigint_share0 (jl_signal_pending s) \<and>
           jl_safepoint_enable_cnt s' 1 =
             jl_safepoint_enable_cnt s 1 - sigint_share1 (jl_signal_pending s) \<and>
           jl_safepoint_enable_cnt s' 2 = jl_safepoint_enable_cnt s 2"
  using assms
  by (auto simp: jl_safepoint_consume_sigint_def jl_safepoint_disable_valid Let_def
      sigint_share0_def sigint_share1_def)

text \<open>
  Claim C3 as stated: from every level in \<open>{0, 1, 2}\<close>, \<^verbatim>\<open>jl_safepoint_enable_sigint\<close>
  followed by \<^verbatim>\<open>jl_safepoint_consume_sigint\<close> returns the level to 0 and leaves slots 0
  and 1 with the counters and protections they had before the two calls.  From level 1 it does
  not: the sigint page was enabled (counter 1, inaccessible) before and is disabled (counter 0,
  read-only) after.
\<close>

theorem sigint_roundtrip_counterexample:
  "\<not> (case sigint_roundtrip level1_state of
         Inl e \<Rightarrow> False
       | Inr (r, s') \<Rightarrow> jl_signal_pending s' = 0 \<and> slots01_as_before level1_state s')"
  by (simp add: sigint_roundtrip_def jl_safepoint_enable_sigint_def jl_safepoint_consume_sigint_def
      jl_safepoint_disable_valid jl_safepoint_enable_valid level1_state_def Let_def
      slots01_as_before_def)

text \<open>
  Claim C3, amended: from every state that satisfies invariant I1 (level in \<open>{0, 1, 2}\<close>,
  \<open>g\<close> the collector's increment of slot 1), the two calls succeed,
  \<^verbatim>\<open>jl_safepoint_consume_sigint\<close> returns 1 and the level is 0; the interrupt's own
  increments are gone (slot 0 is lowered by 1 when the level was at least 1, slot 1 by 1 when it
  was 2), so that I1 holds again at level 0: slot 0 has counter 0 and is read-only, slot 1 has
  counter \<open>g\<close> and the protection that goes with it; slot 2 and the GC flag are untouched.
  Called on its own at a level in \<open>{0, 1, 2}\<close>, \<^verbatim>\<open>jl_safepoint_consume_sigint\<close> returns 1
  if the level was at least 1 and 0 otherwise.
\<close>

theorem sigint_roundtrip_clears:
  assumes "sigint_inv g s"
  shows "(\<exists>s'. sigint_roundtrip s = Inr (1, s') \<and> jl_signal_pending s' = 0 \<and> sigint_inv g s' \<and>
            jl_safepoint_enable_cnt s' 0 =
              jl_safepoint_enable_cnt s 0 - sigint_share0 (jl_signal_pending s) \<and>
            jl_safepoint_enable_cnt s' 1 =
              jl_safepoint_enable_cnt s 1 - sigint_share1 (jl_signal_pending s) \<and>
            jl_safepoint_enable_cnt s' 2 = jl_safepoint_enable_cnt s 2 \<and>
            page_prot s' 2 = page_prot s 2 \<and>
            jl_gc_running s' = jl_gc_running s) \<and>
         (\<exists>r s'. jl_safepoint_consume_sigint s = Inr (r, s') \<and> (r = 1 \<or> r = 0) \<and>
            (r = 1 \<longleftrightarrow> 1 \<le> jl_signal_pending s))"
proof -
  from assms have g: "g = 0 \<or> g = 1" by (simp add: sigint_inv_def word8_le_1_cases)
  from assms have lvl:
    "jl_signal_pending s = 0 \<or> jl_signal_pending s = 1 \<or> jl_signal_pending s = 2"
    by (simp add: sigint_inv_def)
  have A: "\<exists>s'. sigint_roundtrip s = Inr (1, s') \<and> jl_signal_pending s' = 0 \<and> sigint_inv g s' \<and>
            jl_safepoint_enable_cnt s' 0 =
              jl_safepoint_enable_cnt s 0 - sigint_share0 (jl_signal_pending s) \<and>
            jl_safepoint_enable_cnt s' 1 =
              jl_safepoint_enable_cnt s 1 - sigint_share1 (jl_signal_pending s) \<and>
            jl_safepoint_enable_cnt s' 2 = jl_safepoint_enable_cnt s 2 \<and>
            page_prot s' 2 = page_prot s 2 \<and>
            jl_gc_running s' = jl_gc_running s"
    using assms g lvl
    by (auto simp: sigint_roundtrip_def jl_safepoint_enable_sigint_def
      jl_safepoint_consume_sigint_def jl_safepoint_disable_valid jl_safepoint_enable_valid Let_def
      sigint_inv_def sigint_share0_def sigint_share1_def prot_of_cnt_def)
  from consume_sigint_result[of s] lvl
  have B: "\<exists>r s'. jl_safepoint_consume_sigint s = Inr (r, s') \<and> (r = 1 \<or> r = 0) \<and>
            (r = 1 \<longleftrightarrow> 1 \<le> jl_signal_pending s)"
    by auto
  from A B show ?thesis by blast
qed

theorem sigint_roundtrip_clears_witness:
  "sigint_inv 0 level1_state \<and>
   (\<exists>s'. sigint_roundtrip level1_state = Inr (1, s') \<and> jl_signal_pending s' = 0 \<and>
        jl_safepoint_enable_cnt s' 0 = 0 \<and> jl_safepoint_enable_cnt s' 1 = 0 \<and>
        page_prot s' 0 = PROT_READ \<and> page_prot s' 1 = PROT_READ)"
proof -
  have inv: "sigint_inv 0 level1_state"
    by (simp add: sigint_inv_def level1_state_def sigint_share0_def sigint_share1_def
        prot_of_cnt_def)
  from sigint_roundtrip_clears[OF inv] inv show ?thesis
    by (auto simp: sigint_inv_def sigint_share0_def sigint_share1_def prot_of_cnt_def
        level1_state_def)
qed

subsection \<open>Ending a collection\<close>

text \<open>
  Claim C5 as stated: \<^verbatim>\<open>jl_safepoint_end_gc\<close> on the multi-thread path locks, disables
  slot 2, disables slot 1, stores 0 with release order, broadcasts the condition variable and
  then unlocks.  The code unlocks first and broadcasts after: with two threads and a collection
  in progress the calls are as the first list shows, not as the second.
\<close>

theorem end_gc_counterexample:
  "case jl_safepoint_end_gc 2 collecting_state of
     Inl e \<Rightarrow> False
   | Inr s' \<Rightarrow>
       trace s' = [MutexLock, Mprotect 2 PROT_READ, Mprotect 1 PROT_READ, StoreRelease 0,
                   MutexUnlock, CondBroadcast] \<and>
       trace s' \<noteq> [MutexLock, Mprotect 2 PROT_READ, Mprotect 1 PROT_READ, StoreRelease 0,
                   CondBroadcast, MutexUnlock]"
  by (simp add: jl_safepoint_end_gc_def jl_safepoint_disable_valid collecting_state_def Let_def)

text \<open>
  Claim C5, amended: on the multi-thread path (\<^verbatim>\<open>jl_n_threads\<close> not 1), called with
  \<^verbatim>\<open>jl_gc_running\<close> set, \<^verbatim>\<open>jl_safepoint_end_gc\<close> returns, and it performs in this
  order: lock the safepoint lock; disable slot 2 (its page becomes read-only when the counter
  was 1); disable slot 1 (likewise); store 0 into \<^verbatim>\<open>jl_gc_running\<close> with release order;
  unlock the safepoint lock; broadcast the condition variable.
\<close>

theorem end_gc_order:
  assumes "n \<noteq> 1" "jl_gc_running s \<noteq> 0"
  shows "\<exists>s'. jl_safepoint_end_gc n s = Inr s' \<and>
           trace s' = trace s @ [MutexLock] @
             (if jl_safepoint_enable_cnt s 2 = 1 then [Mprotect 2 PROT_READ] else []) @
             (if jl_safepoint_enable_cnt s 1 = 1 then [Mprotect 1 PROT_READ] else []) @
             [StoreRelease 0, MutexUnlock, CondBroadcast] \<and>
           jl_gc_running s' = 0 \<and>
           jl_safepoint_enable_cnt s' =
             (jl_safepoint_enable_cnt s)(2 := jl_safepoint_enable_cnt s 2 - 1,
                                         1 := jl_safepoint_enable_cnt s 1 - 1) \<and>
           page_prot s' 2 = (if jl_safepoint_enable_cnt s 2 = 1 then PROT_READ else page_prot s 2) \<and>
           page_prot s' 1 = (if jl_safepoint_enable_cnt s 1 = 1 then PROT_READ else page_prot s 1) \<and>
           page_prot s' 0 = page_prot s 0 \<and>
           jl_signal_pending s' = jl_signal_pending s"
  using assms
  by (auto simp: jl_safepoint_end_gc_def jl_safepoint_disable_valid Let_def)

theorem end_gc_order_witness:
  "\<exists>s'. jl_safepoint_end_gc 2 collecting_state = Inr s' \<and>
         trace s' = [MutexLock, Mprotect 2 PROT_READ, Mprotect 1 PROT_READ, StoreRelease 0,
                     MutexUnlock, CondBroadcast] \<and>
         jl_gc_running s' = 0 \<and> jl_safepoint_enable_cnt s' 1 = 0 \<and> jl_safepoint_enable_cnt s' 2 = 0"
  using end_gc_order[of 2 collecting_state] by (auto simp: collecting_state_def)

subsection \<open>Deferring an interrupt\<close>

text \<open>
  Claim C10: at every pending level other than 2, \<^verbatim>\<open>jl_safepoint_defer_sigint\<close> only
  takes and releases the lock: the level, the three counters, the page protections and the GC
  flag are unchanged.  At level 2 it disables slot 1 (counter lowered by 1, page read-only when
  the counter reaches 0) and sets the level to 1, and changes nothing else.
\<close>

theorem defer_sigint_frame:
  "(jl_signal_pending s \<noteq> 2 \<longrightarrow>
      (\<exists>s'. jl_safepoint_defer_sigint s = Inr s' \<and>
            jl_signal_pending s' = jl_signal_pending s \<and>
            jl_safepoint_enable_cnt s' = jl_safepoint_enable_cnt s \<and>
            page_prot s' = page_prot s \<and>
            jl_gc_running s' = jl_gc_running s \<and>
            trace s' = trace s @ [MutexLock, MutexUnlock])) \<and>
   (jl_signal_pending s = 2 \<longrightarrow>
      (\<exists>s'. jl_safepoint_defer_sigint s = Inr s' \<and>
            jl_signal_pending s' = 1 \<and>
            jl_safepoint_enable_cnt s' =
              (jl_safepoint_enable_cnt s)(1 := jl_safepoint_enable_cnt s 1 - 1) \<and>
            page_prot s' =
              (if jl_safepoint_enable_cnt s 1 = 1 then (page_prot s)(1 := PROT_READ) else page_prot s) \<and>
            jl_gc_running s' = jl_gc_running s))"
  by (auto simp: jl_safepoint_defer_sigint_def jl_safepoint_disable_valid Let_def)

theorem defer_sigint_frame_witness:
  "(\<exists>s'. jl_safepoint_defer_sigint level1_state = Inr s' \<and>
         jl_signal_pending s' = 1 \<and>
         jl_safepoint_enable_cnt s' = jl_safepoint_enable_cnt level1_state \<and>
         page_prot s' = page_prot level1_state) \<and>
   (\<exists>s'. jl_safepoint_defer_sigint (level1_state\<lparr>jl_signal_pending := 2,
               jl_safepoint_enable_cnt := (\<lambda>i. 0)(0 := 1, 1 := 1),
               page_prot := (\<lambda>i. PROT_READ)(0 := PROT_NONE, 1 := PROT_NONE)\<rparr>) = Inr s' \<and>
         jl_signal_pending s' = 1 \<and>
         jl_safepoint_enable_cnt s' 1 = 0 \<and> jl_safepoint_enable_cnt s' 0 = 1 \<and>
         page_prot s' 1 = PROT_READ \<and> page_prot s' 0 = PROT_NONE)"
  using defer_sigint_frame[of level1_state]
        defer_sigint_frame[of "level1_state\<lparr>jl_signal_pending := 2,
               jl_safepoint_enable_cnt := (\<lambda>i. 0)(0 := 1, 1 := 1),
               page_prot := (\<lambda>i. PROT_READ)(0 := PROT_NONE, 1 := PROT_NONE)\<rparr>"]
  by (auto simp: level1_state_def)

section \<open>Properties of the fault router\<close>

lemma hemit_simps [simp]:
  "sp (hemit e h) = emit e (sp h)" "uc (hemit e h) = uc h" "tls (hemit e h) = tls h"
  by (simp_all add: hemit_def)

lemma hemit_sp_update [simp]: "(hemit e h)\<lparr>sp := s'\<rparr> = h\<lparr>sp := s'\<rparr>"
  by (simp add: hemit_def)

lemma and_not_15_aligned: "((x :: 64 word) AND NOT 15) mod 16 = 0"
proof -
  have m: "(15 :: 64 word) = mask 4" by (simp add: mask_eq_exp_minus_1)
  have "(x AND NOT (mask 4)) AND mask 4 = (0 :: 64 word)" by (simp add: word_bw_assocs)
  moreover have "(x AND NOT (mask 4)) mod 2 ^ 4 = (x AND NOT (mask 4)) AND mask 4"
    by (rule word_mod_2p_is_mask) simp
  ultimately show ?thesis by (simp add: m)
qed

lemma disable_trace:
  assumes "0 \<le> idx" "idx < 3"
  shows "\<exists>s' rest. jl_safepoint_disable idx s = Inr s' \<and> trace s' = trace s @ rest \<and>
           set rest \<subseteq> {Mprotect (nat idx) PROT_READ} \<and>
           jl_signal_pending s' = jl_signal_pending s"
  using assms by (auto simp: jl_safepoint_disable_valid Let_def)

lemma defer_sigint_trace:
  "\<exists>s' rest. jl_safepoint_defer_sigint s = Inr s' \<and> trace s' = trace s @ MutexLock # rest \<and>
      ClearForceSigint \<notin> set rest"
  by (auto simp: jl_safepoint_defer_sigint_def jl_safepoint_disable_valid Let_def)

lemma consume_sigint_trace:
  assumes "jl_signal_pending s \<in> {0, 1, 2}"
  shows "\<exists>r s' rest. jl_safepoint_consume_sigint s = Inr (r, s') \<and>
      trace s' = trace s @ MutexLock # rest \<and> ClearForceSigint \<notin> set rest \<and>
      r = (if 1 \<le> jl_signal_pending s then 1 else 0) \<and> jl_signal_pending s' = 0"
  using assms
  by (auto simp: jl_safepoint_consume_sigint_def jl_safepoint_disable_valid Let_def)

lemma consume_sigint_trace_any:
  assumes "jl_safepoint_consume_sigint s = Inr (r, s')"
  shows "\<exists>rest. trace s' = trace s @ MutexLock # rest"
  using assms
  by (auto simp: jl_safepoint_consume_sigint_def jl_safepoint_disable_valid Let_def split: if_splits)

lemma jl_call_in_ctx_trace:
  assumes "jl_call_in_ctx L p fptr sg h = Inr h'"
  shows "\<exists>rest. trace (sp h') = trace (sp h) @ rest"
  using assms by (auto simp: jl_call_in_ctx_def Let_def split: if_splits)

lemma jl_throw_in_ctx_trace:
  assumes "jl_throw_in_ctx L f e h = Inr h'"
  shows "\<exists>rest. trace (sp h') = trace (sp h) @ rest"
  using assms jl_call_in_ctx_trace
  by (fastforce simp: jl_throw_in_ctx_def Let_def split: if_splits)



lemma word64_mod16: "((x :: 64 word) mod 16 = 0) = (unat x mod 16 = 0)"
proof -
  have "(x mod 16 = 0) = (unat (x mod 16) = 0)" by (simp add: unat_eq_zero)
  also have "\<dots> = (unat x mod 16 = 0)" by (simp add: unat_mod)
  finally show ?thesis .
qed

lemma sigstack_top_aligned:
  assumes "(a :: 64 word) mod 16 = 0"
  shows "(a + sig_stack_size) mod 16 = 0"
proof -
  have c: "unat sig_stack_size mod 16 = 0" by (simp add: sig_stack_size_def)
  from assms have a: "unat a mod 16 = 0" by (simp add: word64_mod16)
  have d: "(16 :: nat) dvd 2 ^ 64" by simp
  have "unat (a + sig_stack_size) mod 16 = ((unat a + unat sig_stack_size) mod 2 ^ 64) mod 16"
    by (simp add: unat_word_ariths)
  also have "\<dots> = (unat a + unat sig_stack_size) mod 16"
    using d by (rule mod_mod_cancel)
  also have "\<dots> = 0" using a c by presburger
  finally show ?thesis by (simp add: word64_mod16)
qed


lemma and_minus_16_aligned: "((x :: 64 word) AND - 16) mod 16 = 0"
  using and_not_15_aligned[of x] by simp

text \<open>What injecting an exception leaves behind when the thread has an aligned signal stack.\<close>

lemma jl_throw_in_ctx_injects:
  assumes "\<not> safe_restore f" "signal_stack (tls h) \<noteq> 0" "signal_stack (tls h) mod 16 = 0"
  shows "\<exists>h'. jl_throw_in_ctx L f e h = Inr h' \<and>
           sig_exception (tls h') = Some e \<and> bt_size (tls h') = backtrace_len f \<and>
           REG_RIP (uc h') = Entry jl_sig_throw \<and>
           REG_RSP (uc h') =
             (if is_addr_on_sigstack L (tls h) (REG_RSP (uc h))
              then ((REG_RSP (uc h) - 256) AND NOT 15) - 8
              else signal_stack (tls h) + sig_stack_size - 8) \<and>
           sp h' = emit RecBacktraceCtx (sp h)"
proof -
  have "(signal_stack (tls h) + sig_stack_size) mod 16 = 0"
    using assms(3) by (rule sigstack_top_aligned)
  then show ?thesis using assms
    by (auto simp: jl_throw_in_ctx_def jl_call_in_ctx_def Let_def and_minus_16_aligned
        jl_get_rsp_from_ctx_def is_addr_on_sigstack_def)
qed


subsection \<open>Faults on the safepoint pages\<close>

text \<open>
  Claim C4 as stated: for every fault on a safepoint page, on a thread with a current task,
  \<^verbatim>\<open>segv_handler\<close> first enters GC wait.  It does not when a safe-restore buffer is set:
  the handler then redirects to \<^verbatim>\<open>jl_sig_throw\<close> and returns before it looks at the
  task or the address.
\<close>

theorem segv_poll_counterexample:
  "jl_addr_is_safepoint layout0 (si_addr poll_in_safe_restore) \<and>
   current_task poll_in_safe_restore = Some task0 \<and>
   (case segv_handler layout0 poll_in_safe_restore h0 of
      Inl e \<Rightarrow> False
    | Inr (out, h') \<Rightarrow>
        out = Returns \<and> trace (sp h') = [SigUnblock 11, Call jl_sig_throw] \<and>
        SetGcAndWait \<notin> set (trace (sp h')))"
  by (simp add: segv_handler_def poll_in_safe_restore_def jl_call_in_ctx_def
      jl_addr_is_safepoint_def layout0_def h0_def safepoint_init_def)

text \<open>
  Claim C4, amended: for every fault (\<^verbatim>\<open>SIGSEGV\<close> or \<^verbatim>\<open>SIGBUS\<close>) whose address
  lies in the safepoint pages, on a thread with a current task and no safe-restore buffer set:
  the handler first enters GC wait, and if it ends it returns; on a task that is not on thread
  0 it does nothing more; on thread 0 with \<^verbatim>\<open>defer_signal\<close> nonzero it calls
  \<^verbatim>\<open>jl_safepoint_defer_sigint\<close> and returns; otherwise it calls
  \<^verbatim>\<open>jl_safepoint_consume_sigint\<close> and, exactly when that returns 1, clears the
  force-sigint latch and injects \<^verbatim>\<open>jl_interrupt_exception\<close> into the trapped context
  (with an aligned signal stack: the exception is stored, the backtrace recorded and the
  instruction pointer set to \<^verbatim>\<open>jl_sig_throw\<close>).
\<close>

theorem segv_safepoint_poll:
  assumes "\<not> safe_restore f" "current_task f = Some ct" "sig f = SIGSEGV \<or> sig f = SIGBUS"
    "jl_addr_is_safepoint L (si_addr f)"
  shows
   "(\<forall>out h'. segv_handler L f h = Inr (out, h') \<longrightarrow>
        out = Returns \<and> (\<exists>rest. trace (sp h') = trace (sp h) @ SetGcAndWait # rest)) \<and>
    (tid ct \<noteq> 0 \<longrightarrow> segv_handler L f h = Inr (Returns, hemit SetGcAndWait h)) \<and>
    (tid ct = 0 \<and> defer_signal (tls h) \<noteq> 0 \<longrightarrow>
       (\<exists>s'. jl_safepoint_defer_sigint (sp (hemit SetGcAndWait h)) = Inr s' \<and>
             segv_handler L f h = Inr (Returns, h\<lparr>sp := s'\<rparr>))) \<and>
    (tid ct = 0 \<and> defer_signal (tls h) = 0 \<and> jl_signal_pending (sp h) \<in> {0, 1, 2} \<longrightarrow>
       (\<exists>r s'. jl_safepoint_consume_sigint (sp (hemit SetGcAndWait h)) = Inr (r, s') \<and>
           (r = 1 \<or> r = 0) \<and>
           segv_handler L f h =
             (if r = 1
              then bind (jl_throw_in_ctx L f jl_interrupt_exception
                           (hemit ClearForceSigint (h\<lparr>sp := s'\<rparr>)))
                     (\<lambda>h'. Inr (Returns, h'))
              else Inr (Returns, h\<lparr>sp := s'\<rparr>)) \<and>
           (r = 0 \<longrightarrow> ClearForceSigint \<notin> set (drop (length (trace (sp h))) (trace s'))))) \<and>
    (tid ct = 0 \<and> defer_signal (tls h) = 0 \<and> jl_signal_pending (sp h) \<in> {1, 2} \<and>
     signal_stack (tls h) \<noteq> 0 \<and> signal_stack (tls h) mod 16 = 0 \<longrightarrow>
       (\<exists>h'. segv_handler L f h = Inr (Returns, h') \<and>
             sig_exception (tls h') = Some jl_interrupt_exception \<and>
             REG_RIP (uc h') = Entry jl_sig_throw \<and>
             jl_signal_pending (sp h') = 0 \<and>
             take 2 (rev (trace (sp h'))) = [RecBacktraceCtx, ClearForceSigint]))"
proof -
  let ?h1 = "hemit SetGcAndWait h"
  have base: "segv_handler L f h =
      (if tid ct \<noteq> 0 then Inr (Returns, ?h1)
       else if defer_signal (tls h) \<noteq> 0
       then bind (jl_safepoint_defer_sigint (sp ?h1)) (\<lambda>s'. Inr (Returns, ?h1\<lparr>sp := s'\<rparr>))
       else bind (jl_safepoint_consume_sigint (sp ?h1)) (\<lambda>(r, s').
              if r \<noteq> 0
              then bind (jl_throw_in_ctx L f jl_interrupt_exception
                           (hemit ClearForceSigint (?h1\<lparr>sp := s'\<rparr>)))
                     (\<lambda>h'. Inr (Returns, h'))
              else Inr (Returns, ?h1\<lparr>sp := s'\<rparr>)))"
    using assms by (auto simp: segv_handler_def Let_def)
  have P1: "\<forall>out h'. segv_handler L f h = Inr (out, h') \<longrightarrow>
        out = Returns \<and> (\<exists>rest. trace (sp h') = trace (sp h) @ SetGcAndWait # rest)"
  proof (intro allI impI)
    fix out h' assume r: "segv_handler L f h = Inr (out, h')"
    show "out = Returns \<and> (\<exists>rest. trace (sp h') = trace (sp h) @ SetGcAndWait # rest)"
    proof (cases "tid ct \<noteq> 0")
      case True
      with r base show ?thesis by auto
    next
      case t0: False
      show ?thesis
      proof (cases "defer_signal (tls h) \<noteq> 0")
        case True
        from defer_sigint_trace[of "sp ?h1"] obtain s' rest where
          "jl_safepoint_defer_sigint (sp ?h1) = Inr s'" "trace s' = trace (sp ?h1) @ MutexLock # rest"
          by blast
        with r base t0 True show ?thesis by auto
      next
        case d0: False
        from r base t0 d0 obtain r0 s' where
          c: "jl_safepoint_consume_sigint (sp ?h1) = Inr (r0, s')"
          by (cases "jl_safepoint_consume_sigint (sp ?h1)") auto
        from consume_sigint_trace_any[OF c] obtain rest where
          tr: "trace s' = trace (sp ?h1) @ MutexLock # rest" by blast
        show ?thesis
        proof (cases "r0 \<noteq> 0")
          case False
          with r base t0 d0 c tr show ?thesis by auto
        next
          case True
          with r base t0 d0 c obtain h2 where
            th: "jl_throw_in_ctx L f jl_interrupt_exception
                   (hemit ClearForceSigint (?h1\<lparr>sp := s'\<rparr>)) = Inr h2" and "h' = h2" "out = Returns"
            by (cases "jl_throw_in_ctx L f jl_interrupt_exception
                   (hemit ClearForceSigint (?h1\<lparr>sp := s'\<rparr>))") auto
          from jl_throw_in_ctx_trace[OF th] tr \<open>h' = h2\<close> \<open>out = Returns\<close>
          show ?thesis by auto
        qed
      qed
    qed
  qed
  have P2: "tid ct \<noteq> 0 \<longrightarrow> segv_handler L f h = Inr (Returns, hemit SetGcAndWait h)"
    using base by simp
  have P3: "tid ct = 0 \<and> defer_signal (tls h) \<noteq> 0 \<longrightarrow>
       (\<exists>s'. jl_safepoint_defer_sigint (sp ?h1) = Inr s' \<and>
             segv_handler L f h = Inr (Returns, h\<lparr>sp := s'\<rparr>))"
    using base defer_sigint_trace[of "sp ?h1"] by auto
  have P4: "tid ct = 0 \<and> defer_signal (tls h) = 0 \<and> jl_signal_pending (sp h) \<in> {0, 1, 2} \<longrightarrow>
       (\<exists>r s'. jl_safepoint_consume_sigint (sp ?h1) = Inr (r, s') \<and>
           (r = 1 \<or> r = 0) \<and>
           segv_handler L f h =
             (if r = 1
              then bind (jl_throw_in_ctx L f jl_interrupt_exception
                           (hemit ClearForceSigint (h\<lparr>sp := s'\<rparr>)))
                     (\<lambda>h'. Inr (Returns, h'))
              else Inr (Returns, h\<lparr>sp := s'\<rparr>)) \<and>
           (r = 0 \<longrightarrow> ClearForceSigint \<notin> set (drop (length (trace (sp h))) (trace s'))))"
  proof (intro impI)
    assume a: "tid ct = 0 \<and> defer_signal (tls h) = 0 \<and> jl_signal_pending (sp h) \<in> {0, 1, 2}"
    then have "jl_signal_pending (sp ?h1) \<in> {0, 1, 2}" by simp
    from consume_sigint_trace[OF this] obtain r s' rest where
      c: "jl_safepoint_consume_sigint (sp ?h1) = Inr (r, s')"
      and tr: "trace s' = trace (sp ?h1) @ MutexLock # rest" "ClearForceSigint \<notin> set rest"
      and r: "r = (if 1 \<le> jl_signal_pending (sp ?h1) then 1 else 0)" by blast
    from r have r01: "r = 1 \<or> r = 0" by auto
    have "segv_handler L f h =
             (if r = 1
              then bind (jl_throw_in_ctx L f jl_interrupt_exception
                           (hemit ClearForceSigint (h\<lparr>sp := s'\<rparr>)))
                     (\<lambda>h'. Inr (Returns, h'))
              else Inr (Returns, h\<lparr>sp := s'\<rparr>))"
      using base a c r01 by auto
    moreover have "ClearForceSigint \<notin> set (drop (length (trace (sp h))) (trace s'))"
      using tr by simp
    ultimately show "\<exists>r s'. jl_safepoint_consume_sigint (sp ?h1) = Inr (r, s') \<and>
           (r = 1 \<or> r = 0) \<and>
           segv_handler L f h =
             (if r = 1
              then bind (jl_throw_in_ctx L f jl_interrupt_exception
                           (hemit ClearForceSigint (h\<lparr>sp := s'\<rparr>)))
                     (\<lambda>h'. Inr (Returns, h'))
              else Inr (Returns, h\<lparr>sp := s'\<rparr>)) \<and>
           (r = 0 \<longrightarrow> ClearForceSigint \<notin> set (drop (length (trace (sp h))) (trace s')))"
      using c r01 by blast
  qed
  have P5: "tid ct = 0 \<and> defer_signal (tls h) = 0 \<and> jl_signal_pending (sp h) \<in> {1, 2} \<and>
     signal_stack (tls h) \<noteq> 0 \<and> signal_stack (tls h) mod 16 = 0 \<longrightarrow>
       (\<exists>h'. segv_handler L f h = Inr (Returns, h') \<and>
             sig_exception (tls h') = Some jl_interrupt_exception \<and>
             REG_RIP (uc h') = Entry jl_sig_throw \<and>
             jl_signal_pending (sp h') = 0 \<and>
             take 2 (rev (trace (sp h'))) = [RecBacktraceCtx, ClearForceSigint])"
  proof (intro impI)
    assume a: "tid ct = 0 \<and> defer_signal (tls h) = 0 \<and> jl_signal_pending (sp h) \<in> {1, 2} \<and>
     signal_stack (tls h) \<noteq> 0 \<and> signal_stack (tls h) mod 16 = 0"
    then have "jl_signal_pending (sp ?h1) \<in> {0, 1, 2}" by auto
    from consume_sigint_trace[OF this] a obtain s' where
      c: "jl_safepoint_consume_sigint (sp ?h1) = Inr (1, s')" and p: "jl_signal_pending s' = 0"
      by auto
    let ?h2 = "hemit ClearForceSigint (?h1\<lparr>sp := s'\<rparr>)"
    from a have "signal_stack (tls ?h2) \<noteq> 0" "signal_stack (tls ?h2) mod 16 = 0" by simp_all
    from jl_throw_in_ctx_injects[OF assms(1) this, of L jl_interrupt_exception] obtain h' where
      th: "jl_throw_in_ctx L f jl_interrupt_exception ?h2 = Inr h'"
      and e: "sig_exception (tls h') = Some jl_interrupt_exception"
             "REG_RIP (uc h') = Entry jl_sig_throw" "sp h' = emit RecBacktraceCtx (sp ?h2)"
      by blast
    have "segv_handler L f h = Inr (Returns, h')" using base a c th by simp
    with e p show "\<exists>h'. segv_handler L f h = Inr (Returns, h') \<and>
             sig_exception (tls h') = Some jl_interrupt_exception \<and>
             REG_RIP (uc h') = Entry jl_sig_throw \<and>
             jl_signal_pending (sp h') = 0 \<and>
             take 2 (rev (trace (sp h'))) = [RecBacktraceCtx, ClearForceSigint]"
      by auto
  qed
  from P1 P2 P3 P4 P5 show ?thesis by blast
qed


theorem segv_safepoint_poll_witness:
  "\<not> safe_restore poll_fault \<and> current_task poll_fault = Some task0 \<and>
   sig poll_fault = SIGSEGV \<and> jl_addr_is_safepoint layout0 (si_addr poll_fault) \<and>
   (\<exists>h'. segv_handler layout0 poll_fault (h0\<lparr>sp := level2_state\<rparr>) = Inr (Returns, h') \<and>
         sig_exception (tls h') = Some jl_interrupt_exception \<and>
         REG_RIP (uc h') = Entry jl_sig_throw \<and>
         jl_signal_pending (sp h') = 0)"
proof -
  have a: "\<not> safe_restore poll_fault" "current_task poll_fault = Some task0"
    "sig poll_fault = SIGSEGV \<or> sig poll_fault = SIGBUS"
    "jl_addr_is_safepoint layout0 (si_addr poll_fault)"
    by (simp_all add: poll_fault_def SIGSEGV_def jl_addr_is_safepoint_def layout0_def)
  have b: "tid task0 = 0 \<and> defer_signal (tls (h0\<lparr>sp := level2_state\<rparr>)) = 0 \<and>
     jl_signal_pending (sp (h0\<lparr>sp := level2_state\<rparr>)) \<in> {1, 2} \<and>
     signal_stack (tls (h0\<lparr>sp := level2_state\<rparr>)) \<noteq> 0 \<and>
     signal_stack (tls (h0\<lparr>sp := level2_state\<rparr>)) mod 16 = 0"
    by (simp add: task0_def h0_def tls0_def level2_state_def)
  from segv_safepoint_poll[OF a, of "h0\<lparr>sp := level2_state\<rparr>"] b a
  show ?thesis by (auto simp: poll_fault_def SIGSEGV_def)
qed

subsection \<open>Faults on the signal stack\<close>

text \<open>
  Claim C8 as stated: every fault whose address lies within the thread's signal stack bounds,
  and is neither a safepoint poll nor on the task's stack, makes the handler print a message
  and exit with status \<open>sig + 128\<close>.  \<^verbatim>\<open>jl_is_on_sigstack\<close> also asks that the trapped
  stack pointer lies within the signal stack: a fault on the guard page of the signal stack from
  code running on the task's stack ends in \<^verbatim>\<open>sigdie_handler\<close>, and the handler returns.
\<close>

theorem segv_sigstack_counterexample:
  "is_addr_on_sigstack layout0 (tls h0) (si_addr guard_page_fault) \<and>
   \<not> jl_addr_is_safepoint layout0 (si_addr guard_page_fault) \<and>
   \<not> is_addr_on_stack task0 (tls h0) (si_addr guard_page_fault) \<and>
   current_task guard_page_fault = Some task0 \<and>
   segv_handler layout0 guard_page_fault h0 = Inr (Returns, sigdie_handler 11 h0)"
  by (simp add: segv_handler_def guard_page_fault_def jl_call_in_ctx_def h0_def layout0_def
     SIGSEGV_def SIGBUS_def jl_addr_is_safepoint_def task0_def is_addr_on_stack_def tls0_def
     jl_is_on_sigstack_def is_addr_on_sigstack_def sig_stack_size_def uc0_def
     jl_get_rsp_from_ctx_def SEGV_ACCERR_def)

text \<open>
  Claim C8, amended: for every fault (\<^verbatim>\<open>SIGSEGV\<close> or \<^verbatim>\<open>SIGBUS\<close>) on a thread with
  a current task and no safe-restore buffer set, whose address is neither a safepoint address
  nor on the task's stack, and for which both the fault address and the trapped stack pointer
  lie within the signal stack bounds (from one page below \<^verbatim>\<open>signal_stack\<close> to
  \<^verbatim>\<open>signal_stack + sig_stack_size\<close>): the handler prints the message and exits the process
  with status \<open>sig + 128\<close>; it does not return, and it changes neither the trapped context nor
  the thread-local block nor the safepoint state.
\<close>

theorem segv_sigstack_overflow:
  assumes "\<not> safe_restore f" "current_task f = Some ct" "sig f = SIGSEGV \<or> sig f = SIGBUS"
    "\<not> jl_addr_is_safepoint L (si_addr f)" "\<not> is_addr_on_stack ct (tls h) (si_addr f)"
    "is_addr_on_sigstack L (tls h) (si_addr f)"
    "is_addr_on_sigstack L (tls h) (jl_get_rsp_from_ctx (uc h))"
  shows "\<exists>h'. segv_handler L f h = Inr (Exits (sig f + 128), h') \<and>
           trace (sp h') =
             trace (sp h) @ [SafePrintf (''ERROR: Signal stack overflow, exit'' @ [CHR 0x0A])] \<and>
           uc h' = uc h \<and> tls h' = tls h \<and>
           jl_signal_pending (sp h') = jl_signal_pending (sp h) \<and>
           jl_safepoint_enable_cnt (sp h') = jl_safepoint_enable_cnt (sp h) \<and>
           page_prot (sp h') = page_prot (sp h)"
  using assms by (auto simp: segv_handler_def jl_is_on_sigstack_def)

theorem segv_sigstack_overflow_witness:
  "is_addr_on_sigstack layout0 tls0 (si_addr guard_page_fault) \<and>
   is_addr_on_sigstack layout0 tls0 0x2000100 \<and>
   (\<exists>h'. segv_handler layout0 guard_page_fault (h0\<lparr>uc := uc0\<lparr>REG_RSP := 0x2000100\<rparr>\<rparr>) =
           Inr (Exits 139, h') \<and> uc h' = uc0\<lparr>REG_RSP := 0x2000100\<rparr> \<and> tls h' = tls0)"
proof -
  let ?h = "h0\<lparr>uc := uc0\<lparr>REG_RSP := 0x2000100\<rparr>\<rparr>"
  have a: "\<not> safe_restore guard_page_fault" "current_task guard_page_fault = Some task0"
    "sig guard_page_fault = SIGSEGV \<or> sig guard_page_fault = SIGBUS"
    "\<not> jl_addr_is_safepoint layout0 (si_addr guard_page_fault)"
    "\<not> is_addr_on_stack task0 (tls ?h) (si_addr guard_page_fault)"
    "is_addr_on_sigstack layout0 (tls ?h) (si_addr guard_page_fault)"
    "is_addr_on_sigstack layout0 (tls ?h) (jl_get_rsp_from_ctx (uc ?h))"
    by (simp_all add: guard_page_fault_def SIGSEGV_def jl_addr_is_safepoint_def layout0_def
        is_addr_on_stack_def task0_def h0_def tls0_def is_addr_on_sigstack_def sig_stack_size_def
        jl_get_rsp_from_ctx_def)
  from segv_sigstack_overflow[OF a] a(6,7) show ?thesis
    by (auto simp: guard_page_fault_def h0_def jl_get_rsp_from_ctx_def)
qed

section \<open>Properties of the sampling pass\<close>

lemma lemit_simps [simp]:
  "running (lemit e s) = running s"
  "bt_data_prof (lemit e s) = bt_data_prof s"
  "bt_size_cur (lemit e s) = bt_size_cur s"
  "bt_size_max (lemit e s) = bt_size_max s"
  "bt_data (lemit e s) = bt_data s"
  "listener_bt_size (lemit e s) = listener_bt_size s"
  "ltrace (lemit e s) = ltrace s @ [e]"
  by (simp_all add: lemit_def)

lemma store_prof_simps [simp]:
  "running (store_prof v s) = running s"
  "bt_data_prof (store_prof v s) = (bt_data_prof s)(bt_size_cur s := v)"
  "bt_size_cur (store_prof v s) = bt_size_cur s + 1"
  "bt_size_max (store_prof v s) = bt_size_max s"
  "ltrace (store_prof v s) = ltrace s"
  by (simp_all add: store_prof_def)

lemma map_write_at: "map (write_at buf k xs) [k..<k + length xs] = xs"
  by (rule nth_equalityI) (auto simp: write_at_def)

lemma write_at_below: "j < k \<Longrightarrow> write_at buf k xs j = buf j"
  by (simp add: write_at_def)

text \<open>A buffer whose entries from \<open>k\<close> on are \<open>xs\<close> followed by six single stores.\<close>

lemma map_six_stores:
  "map ((write_at buf k xs)(k + length xs := a, k + length xs + 1 := b, k + length xs + 2 := c,
          k + length xs + 3 := d, k + length xs + 4 := e, k + length xs + 5 := f))
       [k..<k + length xs + 6] = xs @ [a, b, c, d, e, f]"
proof (rule nth_equalityI)
  show "length (map ((write_at buf k xs)(k + length xs := a, k + length xs + 1 := b,
          k + length xs + 2 := c, k + length xs + 3 := d, k + length xs + 4 := e,
          k + length xs + 5 := f)) [k..<k + length xs + 6]) = length (xs @ [a, b, c, d, e, f])"
    by simp
next
  fix j
  assume "j < length (map ((write_at buf k xs)(k + length xs := a, k + length xs + 1 := b,
          k + length xs + 2 := c, k + length xs + 3 := d, k + length xs + 4 := e,
          k + length xs + 5 := f)) [k..<k + length xs + 6])"
  then have j: "j < length xs + 6" by simp
  then consider "j < length xs" | "j = length xs" | "j = length xs + 1" | "j = length xs + 2"
    | "j = length xs + 3" | "j = length xs + 4" | "j = length xs + 5" by arith
  then have "((write_at buf k xs)(k + length xs := a, k + length xs + 1 := b,
          k + length xs + 2 := c, k + length xs + 3 := d, k + length xs + 4 := e,
          k + length xs + 5 := f)) (k + j) = (xs @ [a, b, c, d, e, f]) ! j"
    by cases (simp_all add: write_at_def nth_append)
  with j show "map ((write_at buf k xs)(k + length xs := a, k + length xs + 1 := b,
          k + length xs + 2 := c, k + length xs + 3 := d, k + length xs + 4 := e,
          k + length xs + 5 := f)) [k..<k + length xs + 6] ! j = (xs @ [a, b, c, d, e, f]) ! j"
    by simp
qed

lemma six_stores_below:
  "j < k \<Longrightarrow> ((write_at buf k xs)(k + length xs := a, k + length xs + 1 := b, k + length xs + 2 := c,
          k + length xs + 3 := d, k + length xs + 4 := e, k + length xs + 5 := f)) j = buf j"
  by (simp add: write_at_def)

lemma write_at_Nil [simp]: "write_at buf k [] = buf"
  by (rule ext) (auto simp: write_at_def)

text \<open>The backtrace that a profile sample of context \<open>c\<close> stores when the state is \<open>s\<close>.\<close>

lemma sample_thread_record:
  assumes "running s \<noteq> 0" "suspended_context E i = Some c"
    "\<not> jl_profile_is_buffer_full E (bt_size_cur s) (bt_size_max s)"
    "bt = (if unwind_faults E c then []
           else rec_backtrace_ctx E (nat ((int (bt_size_max s) - int (bt_size_cur s) - 1) mod 2 ^ 64)) c)"
    "s' = sample_thread E critical True sg i s"
  shows "bt_size_cur s' = bt_size_cur s + length bt + 6"
    and "prof_entries s' (bt_size_cur s) (bt_size_cur s') = bt @ trailer E i"
    and "\<forall>j < bt_size_cur s. bt_data_prof s' j = bt_data_prof s j"
    and "running s' = running s"
proof -
  let ?k = "bt_size_cur s"
  let ?T = "trailer E i"
  have buf: "bt_data_prof s' =
      (write_at (bt_data_prof s) ?k bt)(?k + length bt := ?T ! 0, ?k + length bt + 1 := ?T ! 1,
         ?k + length bt + 2 := ?T ! 2, ?k + length bt + 3 := ?T ! 3, ?k + length bt + 4 := ?T ! 4,
         ?k + length bt + 5 := ?T ! 5)"
    and cur: "bt_size_cur s' = ?k + length bt + 6" and run: "running s' = running s"
    using assms
    by (auto simp: sample_thread_def Let_def trailer_def add.assoc)
  show "bt_size_cur s' = bt_size_cur s + length bt + 6" by (rule cur)
  show "running s' = running s" by (rule run)
  have "prof_entries s' ?k (bt_size_cur s') =
          bt @ [?T ! 0, ?T ! 1, ?T ! 2, ?T ! 3, ?T ! 4, ?T ! 5]"
    unfolding prof_entries_def cur buf by (rule map_six_stores)
  then show "prof_entries s' (bt_size_cur s) (bt_size_cur s') = bt @ trailer E i"
    by (simp add: trailer_def)
  show "\<forall>j < bt_size_cur s. bt_data_prof s' j = bt_data_prof s j"
    unfolding buf by (simp add: write_at_def)
qed

lemma sample_thread_full:
  assumes "running s \<noteq> 0" "suspended_context E i = Some c"
    "jl_profile_is_buffer_full E (bt_size_cur s) (bt_size_max s)"
    "s' = sample_thread E critical True sg i s"
  shows "running s' = 0 \<and> bt_size_cur s' = bt_size_cur s \<and> bt_data_prof s' = bt_data_prof s \<and>
         ltrace s' = ltrace s @ [SuspendThread i, TimerDelete, ResumeThread i sg]"
  using assms by (auto simp: sample_thread_def Let_def jl_profile_stop_timer_def)

lemma sample_thread_stopped:
  assumes "running s = 0"
  shows "running (sample_thread E critical profile sg i s) = 0 \<and>
         bt_size_cur (sample_thread E critical profile sg i s) = bt_size_cur s \<and>
         bt_data_prof (sample_thread E critical profile sg i s) = bt_data_prof s"
  using assms by (auto simp: sample_thread_def Let_def split: option.splits)

lemma sample_threads_stopped:
  "running s = 0 \<Longrightarrow>
     running (sample_threads E critical profile sg idx s) = 0 \<and>
     bt_size_cur (sample_threads E critical profile sg idx s) = bt_size_cur s \<and>
     bt_data_prof (sample_threads E critical profile sg idx s) = bt_data_prof s"
proof (induction idx arbitrary: s)
  case 0
  then show ?case by simp
next
  case (Suc idx)
  from sample_thread_stopped[OF Suc.prems] Suc.IH show ?case by simp
qed


lemma env0_thread2:
  "running listener0 \<noteq> 0" "suspended_context env0 2 = Some 0x7000"
  "\<not> jl_profile_is_buffer_full env0 (bt_size_cur listener0) (bt_size_max listener0)"
  "(if unwind_faults env0 0x7000 then []
    else rec_backtrace_ctx env0
           (nat ((int (bt_size_max listener0) - int (bt_size_cur listener0) - 1) mod 2 ^ 64)) 0x7000)
   = [uintptr 0x401000, uintptr 0x402000]"
  "trailer env0 2 = [uintptr 3, jlvalue 0x9002, uintptr 12345, uintptr 1, uintptr 0, uintptr 0]"
  by (simp_all add: env0_def listener0_def rec_backtrace_ctx_def trailer_def)

text \<open>
  Claim C9 as stated: a sampled thread's record in the profile buffer is its backtrace followed
  by exactly five trailer words.  The code stores six: with three threads and thread 2 sampled
  at a context with two frames, the record is the two frames followed by the thread id plus 1,
  the task, the cycle counter, the sleep state plus 1 and two zeros.
\<close>

theorem profile_record_counterexample:
  "prof_entries (sample_thread env0 False True 10 2 listener0) 0
     (bt_size_cur (sample_thread env0 False True 10 2 listener0)) =
     frames env0 0x7000 @
     [uintptr 3, jlvalue 0x9002, uintptr 12345, uintptr 1, uintptr 0, uintptr 0] \<and>
   length (drop (length (frames env0 0x7000))
     (prof_entries (sample_thread env0 False True 10 2 listener0) 0
        (bt_size_cur (sample_thread env0 False True 10 2 listener0)))) \<noteq> 5"
proof -
  have f: "frames env0 0x7000 = [uintptr 0x401000, uintptr 0x402000]" by (simp add: env0_def)
  have z: "bt_size_cur listener0 = 0" by (simp add: listener0_def)
  from sample_thread_record(2)[OF env0_thread2(1,2,3) env0_thread2(4)[symmetric] refl,
      of False 10]
  have "prof_entries (sample_thread env0 False True 10 2 listener0) 0
     (bt_size_cur (sample_thread env0 False True 10 2 listener0)) =
     [uintptr 0x401000, uintptr 0x402000] @ trailer env0 2"
    by (simp add: z)
  then show ?thesis by (simp add: f env0_thread2(5))
qed

text \<open>
  Claim C9, amended: in a sampling pass with the profiler running, for every thread that was
  suspended with a context: if the profile buffer is not full, the entries appended to it are
  the backtrace entries (none when unwinding faulted) followed by exactly six trailer words in
  order: the thread id plus 1, the current task pointer, a cycle counter, the sleep state plus
  1, and two zero terminator entries; nothing before the cursor changes.  If the profile buffer
  is full, the profile timer is stopped (\<^verbatim>\<open>running\<close> becomes 0), nothing is recorded for
  that thread, and nothing is recorded for the threads visited after it.
\<close>

theorem profile_sample_record:
  assumes "running s \<noteq> 0" "suspended_context E i = Some c"
    "s' = sample_thread E critical True sg i s"
  shows
   "(\<not> jl_profile_is_buffer_full E (bt_size_cur s) (bt_size_max s) \<longrightarrow>
       (\<exists>bt. bt = (if unwind_faults E c then []
                   else rec_backtrace_ctx E
                          (nat ((int (bt_size_max s) - int (bt_size_cur s) - 1) mod 2 ^ 64)) c) \<and>
             bt_size_cur s' = bt_size_cur s + length bt + 6 \<and>
             prof_entries s' (bt_size_cur s) (bt_size_cur s') =
               bt @ [uintptr (word_of_int (ptls_tid (jl_all_tls_states E i) + 1)),
                     jlvalue (ptls_current_task (jl_all_tls_states E i)),
                     uintptr (cycleclock E i),
                     uintptr (word_of_int (sleep_check_state (jl_all_tls_states E i) + 1)),
                     uintptr 0, uintptr 0] \<and>
             (\<forall>j < bt_size_cur s. bt_data_prof s' j = bt_data_prof s j) \<and>
             running s' = running s)) \<and>
    (jl_profile_is_buffer_full E (bt_size_cur s) (bt_size_max s) \<longrightarrow>
       running s' = 0 \<and> TimerDelete \<in> set (ltrace s') \<and>
       bt_size_cur s' = bt_size_cur s \<and> bt_data_prof s' = bt_data_prof s \<and>
       (\<forall>idx. bt_size_cur (sample_threads E critical True sg idx s') = bt_size_cur s \<and>
              bt_data_prof (sample_threads E critical True sg idx s') = bt_data_prof s))"
proof (intro conjI impI)
  assume nf: "\<not> jl_profile_is_buffer_full E (bt_size_cur s) (bt_size_max s)"
  let ?bt = "if unwind_faults E c then []
             else rec_backtrace_ctx E
                    (nat ((int (bt_size_max s) - int (bt_size_cur s) - 1) mod 2 ^ 64)) c"
  from sample_thread_record[OF assms(1,2) nf refl assms(3)]
  have "bt_size_cur s' = bt_size_cur s + length ?bt + 6"
    "prof_entries s' (bt_size_cur s) (bt_size_cur s') = ?bt @ trailer E i"
    "\<forall>j < bt_size_cur s. bt_data_prof s' j = bt_data_prof s j"
    "running s' = running s" by blast+
  then show "\<exists>bt. bt = ?bt \<and>
             bt_size_cur s' = bt_size_cur s + length bt + 6 \<and>
             prof_entries s' (bt_size_cur s) (bt_size_cur s') =
               bt @ [uintptr (word_of_int (ptls_tid (jl_all_tls_states E i) + 1)),
                     jlvalue (ptls_current_task (jl_all_tls_states E i)),
                     uintptr (cycleclock E i),
                     uintptr (word_of_int (sleep_check_state (jl_all_tls_states E i) + 1)),
                     uintptr 0, uintptr 0] \<and>
             (\<forall>j < bt_size_cur s. bt_data_prof s' j = bt_data_prof s j) \<and>
             running s' = running s"
    by (simp add: trailer_def)
next
  assume full: "jl_profile_is_buffer_full E (bt_size_cur s) (bt_size_max s)"
  from sample_thread_full[OF assms(1,2) full assms(3)]
  have a: "running s' = 0" "bt_size_cur s' = bt_size_cur s" "bt_data_prof s' = bt_data_prof s"
    "ltrace s' = ltrace s @ [SuspendThread i, TimerDelete, ResumeThread i sg]" by blast+
  show "running s' = 0" by (rule a(1))
  show "TimerDelete \<in> set (ltrace s')" by (simp add: a(4))
  show "bt_size_cur s' = bt_size_cur s" by (rule a(2))
  show "bt_data_prof s' = bt_data_prof s" by (rule a(3))
  show "\<forall>idx. bt_size_cur (sample_threads E critical True sg idx s') = bt_size_cur s \<and>
              bt_data_prof (sample_threads E critical True sg idx s') = bt_data_prof s"
    using sample_threads_stopped[OF a(1)] a(2,3) by simp
qed

theorem profile_sample_record_witness:
  "running listener0 \<noteq> 0 \<and> suspended_context env0 2 = Some 0x7000 \<and>
   bt_size_cur (sample_thread env0 False True 10 2 listener0) = 8 \<and>
   prof_entries (sample_thread env0 False True 10 2 listener0) 0 8 =
     [uintptr 0x401000, uintptr 0x402000,
      uintptr 3, jlvalue 0x9002, uintptr 12345, uintptr 1, uintptr 0, uintptr 0]"
proof -
  have z: "bt_size_cur listener0 = 0" by (simp add: listener0_def)
  have tb: "jl_all_tls_states env0 2 =
      \<lparr>ptls_tid = 2, ptls_current_task = 0x9002, sleep_check_state = 0\<rparr>"
    "cycleclock env0 2 = 12345"
    by (simp_all add: env0_def)
  from profile_sample_record[OF env0_thread2(1,2) refl, of False 10] env0_thread2(3,4)
  have k: "bt_size_cur (sample_thread env0 False True 10 2 listener0) = 8"
    and e: "prof_entries (sample_thread env0 False True 10 2 listener0) 0
       (bt_size_cur (sample_thread env0 False True 10 2 listener0)) =
     [uintptr 0x401000, uintptr 0x402000,
      uintptr 3, jlvalue 0x9002, uintptr 12345, uintptr 1, uintptr 0, uintptr 0]"
    by (auto simp: z tb)
  from e have "prof_entries (sample_thread env0 False True 10 2 listener0) 0 8 =
     [uintptr 0x401000, uintptr 0x402000,
      uintptr 3, jlvalue 0x9002, uintptr 12345, uintptr 1, uintptr 0, uintptr 0]"
    unfolding k .
  with k env0_thread2(1,2) show ?thesis by simp
qed

section \<open>Properties of the GC rendezvous\<close>

lemma goto_simps [simp]:
  "globals (goto t p s) = globals s"
  "safepoint_lock (goto t p s) = safepoint_lock s"
  "pc (goto t p s) = (pc s)(t := p)"
  "returned (goto t p s) = returned s"
  by (simp_all add: goto_def)

lemma on_globals_simps [simp]:
  "globals (on_globals f s) = f (globals s)"
  "safepoint_lock (on_globals f s) = safepoint_lock s"
  "pc (on_globals f s) = pc s"
  "returned (on_globals f s) = returned s"
  by (simp_all add: on_globals_def)

lemma uv_mutex_lock_simps [simp]:
  "globals (uv_mutex_lock t s) = emit MutexLock (globals s)"
  "safepoint_lock (uv_mutex_lock t s) = Some t"
  "pc (uv_mutex_lock t s) = pc s"
  "returned (uv_mutex_lock t s) = returned s"
  by (simp_all add: uv_mutex_lock_def)

lemma uv_mutex_unlock_simps [simp]:
  "globals (uv_mutex_unlock s) = emit MutexUnlock (globals s)"
  "safepoint_lock (uv_mutex_unlock s) = None"
  "pc (uv_mutex_unlock s) = pc s"
  "returned (uv_mutex_unlock s) = returned s"
  by (simp_all add: uv_mutex_unlock_def)

lemma store_relaxed_simps [simp]:
  "jl_signal_pending (store_relaxed v s) = jl_signal_pending s"
  "jl_gc_running (store_relaxed v s) = v"
  "jl_safepoint_enable_cnt (store_relaxed v s) = jl_safepoint_enable_cnt s"
  "page_prot (store_relaxed v s) = page_prot s"
  "trace (store_relaxed v s) = trace s @ [StoreRelaxed v]"
  by (simp_all add: store_relaxed_def)

lemma announcing_goto [simp]:
  "announcing (goto t p s) =
     (if p = EG_unlock \<or> p = EG_broadcast then insert t (announcing s) else announcing s - {t})"
  by (auto simp: announcing_def)

lemma waiters_goto [simp]:
  "waiters (goto t p s) = (if p = WG_waiting then insert t (waiters s) else waiters s - {t})"
  by (auto simp: waiters_def)

lemma announcing_frame [simp]:
  "announcing (on_globals f s) = announcing s"
  "announcing (uv_mutex_lock t s) = announcing s"
  "announcing (uv_mutex_unlock s) = announcing s"
  "announcing (s\<lparr>returned := r\<rparr>) = announcing s"
  "announcing (s\<lparr>safepoint_lock := l\<rparr>) = announcing s"
  "announcing (s\<lparr>globals := g\<rparr>) = announcing s"
  by (simp_all add: announcing_def)

lemma waiters_frame [simp]:
  "waiters (on_globals f s) = waiters s"
  "waiters (uv_mutex_lock t s) = waiters s"
  "waiters (uv_mutex_unlock s) = waiters s"
  "waiters (s\<lparr>returned := r\<rparr>) = waiters s"
  "waiters (s\<lparr>safepoint_lock := l\<rparr>) = waiters s"
  "waiters (s\<lparr>globals := g\<rparr>) = waiters s"
  by (simp_all add: waiters_def)

lemma gc_share_goto:
  "gc_share n sh c (goto t p s) =
     (case c of None \<Rightarrow> 0
      | Some u \<Rightarrow> if u = t then (if n \<noteq> 1 \<and> sh p then 1 else 0) else gc_share n sh c s)"
  by (simp add: gc_share_def split: option.splits)

lemma gc_share_frame [simp]:
  "gc_share n sh c (on_globals f s) = gc_share n sh c s"
  "gc_share n sh c (uv_mutex_lock t s) = gc_share n sh c s"
  "gc_share n sh c (uv_mutex_unlock s) = gc_share n sh c s"
  "gc_share n sh c (s\<lparr>returned := r\<rparr>) = gc_share n sh c s"
  "gc_share n sh c (s\<lparr>safepoint_lock := l\<rparr>) = gc_share n sh c s"
  "gc_share n sh c (s\<lparr>globals := g\<rparr>) = gc_share n sh c s"
  by (simp_all add: gc_share_def split: option.splits)

lemma uv_cond_broadcast_simps [simp]:
  "globals (uv_cond_broadcast s) = emit CondBroadcast (globals s)"
  "safepoint_lock (uv_cond_broadcast s) = safepoint_lock s"
  "returned (uv_cond_broadcast s) = returned s"
  "collecting (pc (uv_cond_broadcast s) u) = collecting (pc s u)"
  "holds_lock (pc (uv_cond_broadcast s) u) = holds_lock (pc s u)"
  "aborted (pc (uv_cond_broadcast s) u) = aborted (pc s u)"
  "single_pc (pc (uv_cond_broadcast s) u) = single_pc (pc s u)"
  "pc (uv_cond_broadcast s) u = Idle \<longleftrightarrow> pc s u = Idle"
  "waiters (uv_cond_broadcast s) = {}"
  "announcing (uv_cond_broadcast s) = announcing s"
  "gc_share n share1 c (uv_cond_broadcast s) = gc_share n share1 c s"
  "gc_share n share2 c (uv_cond_broadcast s) = gc_share n share2 c s"
  by (auto simp: uv_cond_broadcast_def waiters_def announcing_def gc_share_def
      split: option.splits)

lemma gc_share_other:
  "c \<noteq> Some t \<Longrightarrow> gc_share n sh c (goto t p s) = gc_share n sh c s"
  by (simp add: gc_share_def split: option.splits)

lemma single_no_waiters: "\<forall>t. single_pc (pc s t) \<Longrightarrow> waiters s = {}"
  by (auto simp: waiters_def) (metis single_pc.simps(13))

lemma gc_inv_init: "gc_inv n None gc_init"
  by (simp add: gc_inv_def gc_init_def safepoint_init_def prot_of_cnt_def gc_share_def
      waiters_def)

text \<open>What the invariant says of one thread.\<close>

lemma gc_inv_thread:
  assumes "gc_inv n c s"
  shows "collecting (pc s t) \<longleftrightarrow> c = Some t"
    and "holds_lock (pc s t) \<longleftrightarrow> safepoint_lock s = Some t"
    and "\<not> aborted (pc s t)"
    and "n = 1 \<Longrightarrow> single_pc (pc s t)"
    and "n \<le> t \<Longrightarrow> pc s t = Idle"
  using assms by (simp_all add: gc_inv_def)

lemma gc_share_single [simp]: "gc_share (Suc 0) sh c s = 0"
  by (simp add: gc_share_def split: option.splits)

lemma gc_inv_single_idle:
  assumes "gc_inv 1 c s" "pc s 0 = Idle"
  shows "c = None"
proof (cases c)
  case None
  then show ?thesis .
next
  case (Some y)
  with assms(1) have "collecting (pc s y)" by (simp add: gc_inv_def)
  moreover from assms have "y \<noteq> 0 \<longrightarrow> pc s y = Idle" by (simp add: gc_inv_def)
  ultimately show ?thesis using assms(2) by (cases "y = 0") auto
qed

lemma step_case_0:
  assumes inv: "gc_inv n c s" and w: "\<forall>t<n. waiting t" and t: "t < n"
    and st: "thread_step n waiting t s = Some s'" and pct: "pc s t = Idle"
  shows "gc_inv n (next_collector n t s c) s'"
proof (cases "n = 1")
  case True
  with t have t0: "t = 0" by simp
  from inv pct True t0 have c: "c = None" by (simp add: gc_inv_single_idle)
  have all_idle: "pc s u = Idle" for u
    using gc_inv_thread(5)[OF inv, of u] pct True t0 by (cases "u = 0") auto
  have s': "s' = goto 0 (Returned True)
                 ((on_globals (store_relaxed 1) s)\<lparr>returned := returned s @ [(0, True)]\<rparr>)"
    using st pct True t0 by (simp add: thread_step_def)
  have nc: "next_collector n t s c = Some 0"
    using pct True t0 by (simp add: next_collector_def)
  from inv all_idle have lk: "safepoint_lock s \<noteq> Some u" for u
    using gc_inv_thread(2)[OF inv, of u] by simp
  from all_idle have ws: "waiters s = {}" by (simp add: waiters_def)
  from inv c have g: "jl_safepoint_enable_cnt (globals s) 1 = 0"
    "jl_safepoint_enable_cnt (globals s) 2 = 0"
    "page_prot (globals s) 1 = PROT_READ" "page_prot (globals s) 2 = PROT_READ"
    by (simp_all add: gc_inv_def gc_share_def prot_of_cnt_def)
  show ?thesis unfolding nc s' gc_inv_def
    using True all_idle lk ws g by (simp add: prot_of_cnt_def)
next
  case False
  note L = gc_inv_thread[OF inv, of t, unfolded pct, simplified]
  from L have nc: "c \<noteq> Some t" by simp
  from pct have na: "t \<notin> announcing s" "t \<notin> waiters s"
    by (simp_all add: announcing_def waiters_def)
  show ?thesis using inv st pct L w t nc na False
    by (auto simp: thread_step_def gc_inv_def next_collector_def gc_share_other
        split: if_splits)
qed

lemma step_case_1:
  assumes inv: "gc_inv n c s" and w: "\<forall>t<n. waiting t" and t: "t < n"
    and st: "thread_step n waiting t s = Some s'" and pct: "pc s t = SG_lock"
  shows "gc_inv n (next_collector n t s c) s'"
proof -
  note L = gc_inv_thread[OF inv, of t, unfolded pct, simplified]
  from L have nc: "c \<noteq> Some t" by simp
  from pct have na: "t \<notin> announcing s" "t \<notin> waiters s"
    by (simp_all add: announcing_def waiters_def)
  show ?thesis using inv st pct L w t nc na
    by (auto simp: thread_step_def gc_inv_def next_collector_def gc_share_other
        single_no_waiters split: if_splits)
qed

lemma step_case_2:
  assumes inv: "gc_inv n c s" and w: "\<forall>t<n. waiting t" and t: "t < n"
    and st: "thread_step n waiting t s = Some s'" and pct: "pc s t = SG_cas"
  shows "gc_inv n (next_collector n t s c) s'"
proof -
  note L = gc_inv_thread[OF inv, of t, unfolded pct, simplified]
  show ?thesis using inv st pct L w t
    by (auto simp: thread_step_def gc_inv_def next_collector_def gc_share_goto gc_share_def
        call_slot_def jl_safepoint_enable_valid jl_safepoint_disable_valid prot_of_cnt_def Let_def
        split: if_splits option.splits)
qed

lemma step_case_3:
  assumes inv: "gc_inv n c s" and w: "\<forall>t<n. waiting t" and t: "t < n"
    and st: "thread_step n waiting t s = Some s'" and pct: "pc s t = SG_enable1"
  shows "gc_inv n (next_collector n t s c) s'"
proof -
  note L = gc_inv_thread[OF inv, of t, unfolded pct, simplified]
  show ?thesis using inv st pct L w t
    by (auto simp: thread_step_def gc_inv_def next_collector_def gc_share_goto gc_share_def
        call_slot_def jl_safepoint_enable_valid jl_safepoint_disable_valid prot_of_cnt_def Let_def
        split: if_splits option.splits)
qed

lemma step_case_4:
  assumes inv: "gc_inv n c s" and w: "\<forall>t<n. waiting t" and t: "t < n"
    and st: "thread_step n waiting t s = Some s'" and pct: "pc s t = SG_enable2"
  shows "gc_inv n (next_collector n t s c) s'"
proof -
  note L = gc_inv_thread[OF inv, of t, unfolded pct, simplified]
  show ?thesis using inv st pct L w t
    by (auto simp: thread_step_def gc_inv_def next_collector_def gc_share_goto gc_share_def
        call_slot_def jl_safepoint_enable_valid jl_safepoint_disable_valid prot_of_cnt_def Let_def
        split: if_splits option.splits)
qed

lemma step_case_5:
  assumes inv: "gc_inv n c s" and w: "\<forall>t<n. waiting t" and t: "t < n"
    and st: "thread_step n waiting t s = Some s'" and pct: "pc s t = SG_unlock_won"
  shows "gc_inv n (next_collector n t s c) s'"
proof -
  note L = gc_inv_thread[OF inv, of t, unfolded pct, simplified]
  show ?thesis using inv st pct L w t
    by (auto simp: thread_step_def gc_inv_def next_collector_def gc_share_goto gc_share_def
        call_slot_def jl_safepoint_enable_valid jl_safepoint_disable_valid prot_of_cnt_def Let_def
        split: if_splits option.splits)
qed

lemma step_case_6:
  assumes inv: "gc_inv n c s" and w: "\<forall>t<n. waiting t" and t: "t < n"
    and st: "thread_step n waiting t s = Some s'" and pct: "pc s t = SG_unlock_lost"
  shows "gc_inv n (next_collector n t s c) s'"
proof -
  note L = gc_inv_thread[OF inv, of t, unfolded pct, simplified]
  from L have nc: "c \<noteq> Some t" by simp
  from pct have na: "t \<notin> announcing s" "t \<notin> waiters s"
    by (simp_all add: announcing_def waiters_def)
  show ?thesis using inv st pct L w t nc na
    by (auto simp: thread_step_def gc_inv_def next_collector_def gc_share_other
        single_no_waiters split: if_splits)
qed

lemma step_case_7:
  assumes inv: "gc_inv n c s" and w: "\<forall>t<n. waiting t" and t: "t < n"
    and st: "thread_step n waiting t s = Some s'" and pct: "pc s t = WG_load_relaxed"
  shows "gc_inv n (next_collector n t s c) s'"
proof -
  note L = gc_inv_thread[OF inv, of t, unfolded pct, simplified]
  from L have nc: "c \<noteq> Some t" by simp
  from pct have na: "t \<notin> announcing s" "t \<notin> waiters s"
    by (simp_all add: announcing_def waiters_def)
  show ?thesis using inv st pct L w t nc na
    by (auto simp: thread_step_def gc_inv_def next_collector_def gc_share_other
        single_no_waiters split: if_splits)
qed

lemma step_case_8:
  assumes inv: "gc_inv n c s" and w: "\<forall>t<n. waiting t" and t: "t < n"
    and st: "thread_step n waiting t s = Some s'" and pct: "pc s t = WG_load_acquire"
  shows "gc_inv n (next_collector n t s c) s'"
proof -
  note L = gc_inv_thread[OF inv, of t, unfolded pct, simplified]
  from L have nc: "c \<noteq> Some t" by simp
  from pct have na: "t \<notin> announcing s" "t \<notin> waiters s"
    by (simp_all add: announcing_def waiters_def)
  show ?thesis using inv st pct L w t nc na
    by (auto simp: thread_step_def gc_inv_def next_collector_def gc_share_other
        single_no_waiters split: if_splits)
qed

lemma step_case_9:
  assumes inv: "gc_inv n c s" and w: "\<forall>t<n. waiting t" and t: "t < n"
    and st: "thread_step n waiting t s = Some s'" and pct: "pc s t = WG_lock"
  shows "gc_inv n (next_collector n t s c) s'"
proof -
  note L = gc_inv_thread[OF inv, of t, unfolded pct, simplified]
  from L have nc: "c \<noteq> Some t" by simp
  from pct have na: "t \<notin> announcing s" "t \<notin> waiters s"
    by (simp_all add: announcing_def waiters_def)
  show ?thesis using inv st pct L w t nc na
    by (auto simp: thread_step_def gc_inv_def next_collector_def gc_share_other
        single_no_waiters split: if_splits)
qed

lemma step_case_10:
  assumes inv: "gc_inv n c s" and w: "\<forall>t<n. waiting t" and t: "t < n"
    and st: "thread_step n waiting t s = Some s'" and pct: "pc s t = WG_check"
  shows "gc_inv n (next_collector n t s c) s'"
proof -
  note L = gc_inv_thread[OF inv, of t, unfolded pct, simplified]
  from L have nc: "c \<noteq> Some t" by simp
  from pct have na: "t \<notin> announcing s" "t \<notin> waiters s"
    by (simp_all add: announcing_def waiters_def)
  show ?thesis using inv st pct L w t nc na
    by (auto simp: thread_step_def gc_inv_def next_collector_def gc_share_other
        single_no_waiters split: if_splits)
qed

lemma step_case_11:
  assumes inv: "gc_inv n c s" and w: "\<forall>t<n. waiting t" and t: "t < n"
    and st: "thread_step n waiting t s = Some s'" and pct: "pc s t = WG_waiting"
  shows "gc_inv n (next_collector n t s c) s'"
proof -
  note L = gc_inv_thread[OF inv, of t, unfolded pct, simplified]
  show ?thesis using inv st pct L w t
    by (auto simp: thread_step_def gc_inv_def next_collector_def gc_share_goto gc_share_def
        call_slot_def jl_safepoint_enable_valid jl_safepoint_disable_valid prot_of_cnt_def Let_def
        split: if_splits option.splits)
qed

lemma step_case_12:
  assumes inv: "gc_inv n c s" and w: "\<forall>t<n. waiting t" and t: "t < n"
    and st: "thread_step n waiting t s = Some s'" and pct: "pc s t = WG_woken"
  shows "gc_inv n (next_collector n t s c) s'"
proof -
  note L = gc_inv_thread[OF inv, of t, unfolded pct, simplified]
  from L have nc: "c \<noteq> Some t" by simp
  from pct have na: "t \<notin> announcing s" "t \<notin> waiters s"
    by (simp_all add: announcing_def waiters_def)
  show ?thesis using inv st pct L w t nc na
    by (auto simp: thread_step_def gc_inv_def next_collector_def gc_share_other
        single_no_waiters split: if_splits)
qed

lemma step_case_13:
  assumes inv: "gc_inv n c s" and w: "\<forall>t<n. waiting t" and t: "t < n"
    and st: "thread_step n waiting t s = Some s'" and pct: "pc s t = WG_unlock"
  shows "gc_inv n (next_collector n t s c) s'"
proof -
  note L = gc_inv_thread[OF inv, of t, unfolded pct, simplified]
  from L have nc: "c \<noteq> Some t" by simp
  from pct have na: "t \<notin> announcing s" "t \<notin> waiters s"
    by (simp_all add: announcing_def waiters_def)
  show ?thesis using inv st pct L w t nc na
    by (auto simp: thread_step_def gc_inv_def next_collector_def gc_share_other
        single_no_waiters split: if_splits)
qed

lemma step_case_14:
  assumes inv: "gc_inv n c s" and w: "\<forall>t<n. waiting t" and t: "t < n"
    and st: "thread_step n waiting t s = Some s'" and pct: "pc s t = Returned True"
  shows "gc_inv n (next_collector n t s c) s'"
proof -
  note L = gc_inv_thread[OF inv, of t, unfolded pct, simplified]
  from pct have na: "t \<notin> announcing s" "t \<notin> waiters s"
    by (simp_all add: announcing_def waiters_def)
  have sw: "n = 1 \<Longrightarrow> waiters s = {}" using inv by (simp add: gc_inv_def single_no_waiters)
  show ?thesis using inv st pct L w t na sw
    by (auto simp: thread_step_def gc_inv_def next_collector_def gc_share_goto gc_share_def
        split: if_splits)
qed

lemma step_case_15:
  assumes inv: "gc_inv n c s" and w: "\<forall>t<n. waiting t" and t: "t < n"
    and st: "thread_step n waiting t s = Some s'" and pct: "pc s t = Returned False"
  shows "gc_inv n (next_collector n t s c) s'"
proof -
  note L = gc_inv_thread[OF inv, of t, unfolded pct, simplified]
  from L have nc: "c \<noteq> Some t" by simp
  from pct have na: "t \<notin> announcing s" "t \<notin> waiters s"
    by (simp_all add: announcing_def waiters_def)
  show ?thesis using inv st pct L w t nc na
    by (auto simp: thread_step_def gc_inv_def next_collector_def gc_share_other
        single_no_waiters split: if_splits)
qed

lemma step_case_16:
  assumes inv: "gc_inv n c s" and w: "\<forall>t<n. waiting t" and t: "t < n"
    and st: "thread_step n waiting t s = Some s'" and pct: "pc s t = EG_lock"
  shows "gc_inv n (next_collector n t s c) s'"
proof -
  note L = gc_inv_thread[OF inv, of t, unfolded pct, simplified]
  show ?thesis using inv st pct L w t
    by (auto simp: thread_step_def gc_inv_def next_collector_def gc_share_goto gc_share_def
        call_slot_def jl_safepoint_enable_valid jl_safepoint_disable_valid prot_of_cnt_def Let_def
        split: if_splits option.splits)
qed

lemma step_case_17:
  assumes inv: "gc_inv n c s" and w: "\<forall>t<n. waiting t" and t: "t < n"
    and st: "thread_step n waiting t s = Some s'" and pct: "pc s t = EG_disable2"
  shows "gc_inv n (next_collector n t s c) s'"
proof -
  note L = gc_inv_thread[OF inv, of t, unfolded pct, simplified]
  show ?thesis using inv st pct L w t
    by (auto simp: thread_step_def gc_inv_def next_collector_def gc_share_goto gc_share_def
        call_slot_def jl_safepoint_enable_valid jl_safepoint_disable_valid prot_of_cnt_def Let_def
        split: if_splits option.splits)
qed

lemma step_case_18:
  assumes inv: "gc_inv n c s" and w: "\<forall>t<n. waiting t" and t: "t < n"
    and st: "thread_step n waiting t s = Some s'" and pct: "pc s t = EG_disable1"
  shows "gc_inv n (next_collector n t s c) s'"
proof -
  note L = gc_inv_thread[OF inv, of t, unfolded pct, simplified]
  show ?thesis using inv st pct L w t
    by (auto simp: thread_step_def gc_inv_def next_collector_def gc_share_goto gc_share_def
        call_slot_def jl_safepoint_enable_valid jl_safepoint_disable_valid prot_of_cnt_def Let_def
        split: if_splits option.splits)
qed

lemma step_case_19:
  assumes inv: "gc_inv n c s" and w: "\<forall>t<n. waiting t" and t: "t < n"
    and st: "thread_step n waiting t s = Some s'" and pct: "pc s t = EG_store"
  shows "gc_inv n (next_collector n t s c) s'"
proof -
  note L = gc_inv_thread[OF inv, of t, unfolded pct, simplified]
  show ?thesis using inv st pct L w t
    by (auto simp: thread_step_def gc_inv_def next_collector_def gc_share_goto gc_share_def
        call_slot_def jl_safepoint_enable_valid jl_safepoint_disable_valid prot_of_cnt_def Let_def
        split: if_splits option.splits)
qed

lemma step_case_20:
  assumes inv: "gc_inv n c s" and w: "\<forall>t<n. waiting t" and t: "t < n"
    and st: "thread_step n waiting t s = Some s'" and pct: "pc s t = EG_unlock"
  shows "gc_inv n (next_collector n t s c) s'"
proof -
  note L = gc_inv_thread[OF inv, of t, unfolded pct, simplified]
  show ?thesis using inv st pct L w t
    by (auto simp: thread_step_def gc_inv_def next_collector_def gc_share_goto gc_share_def
        call_slot_def jl_safepoint_enable_valid jl_safepoint_disable_valid prot_of_cnt_def Let_def
        split: if_splits option.splits)
qed

lemma step_case_21:
  assumes inv: "gc_inv n c s" and w: "\<forall>t<n. waiting t" and t: "t < n"
    and st: "thread_step n waiting t s = Some s'" and pct: "pc s t = EG_broadcast"
  shows "gc_inv n (next_collector n t s c) s'"
proof -
  note L = gc_inv_thread[OF inv, of t, unfolded pct, simplified]
  from L have nc: "c \<noteq> Some t" by simp
  show ?thesis using inv st pct L w t nc
    by (auto simp: thread_step_def gc_inv_def next_collector_def gc_share_other
        single_no_waiters split: if_splits)
qed


lemma gc_inv_step:
  assumes "gc_inv n c s" "\<forall>t<n. waiting t" "t < n" "thread_step n waiting t s = Some s'"
  shows "gc_inv n (next_collector n t s c) s'"
proof (cases "pc s t")
  case Idle
  from step_case_0[OF assms this] show ?thesis .
next
  case SG_lock
  from step_case_1[OF assms this] show ?thesis .
next
  case SG_cas
  from step_case_2[OF assms this] show ?thesis .
next
  case SG_enable1
  from step_case_3[OF assms this] show ?thesis .
next
  case SG_enable2
  from step_case_4[OF assms this] show ?thesis .
next
  case SG_unlock_won
  from step_case_5[OF assms this] show ?thesis .
next
  case SG_unlock_lost
  from step_case_6[OF assms this] show ?thesis .
next
  case WG_load_relaxed
  from step_case_7[OF assms this] show ?thesis .
next
  case WG_load_acquire
  from step_case_8[OF assms this] show ?thesis .
next
  case WG_lock
  from step_case_9[OF assms this] show ?thesis .
next
  case WG_check
  from step_case_10[OF assms this] show ?thesis .
next
  case WG_waiting
  from step_case_11[OF assms this] show ?thesis .
next
  case WG_woken
  from step_case_12[OF assms this] show ?thesis .
next
  case WG_unlock
  from step_case_13[OF assms this] show ?thesis .
next
  case EG_lock
  from step_case_16[OF assms this] show ?thesis .
next
  case EG_disable2
  from step_case_17[OF assms this] show ?thesis .
next
  case EG_disable1
  from step_case_18[OF assms this] show ?thesis .
next
  case EG_store
  from step_case_19[OF assms this] show ?thesis .
next
  case EG_unlock
  from step_case_20[OF assms this] show ?thesis .
next
  case EG_broadcast
  from step_case_21[OF assms this] show ?thesis .
next
  case (Returned b)
  show ?thesis
  proof (cases b)
    case True
    with Returned have "pc s t = Returned True" by simp
    from step_case_14[OF assms this] show ?thesis .
  next
    case False
    with Returned have "pc s t = Returned False" by simp
    from step_case_15[OF assms this] show ?thesis .
  qed
next
  case (Aborted e)
  with assms(4) show ?thesis by (simp add: thread_step_def)
qed

lemma gc_inv_wake:
  assumes inv: "gc_inv n c s" and "spurious_wakeup t s = Some s'"
  shows "gc_inv n c s'"
proof -
  from assms(2) have pct: "pc s t = WG_waiting" and s': "s' = goto t WG_woken s"
    by (simp_all add: spurious_wakeup_def split: if_splits)
  note L = gc_inv_thread[OF inv, of t, unfolded pct, simplified]
  from L have nc: "c \<noteq> Some t" by simp
  from pct have na: "t \<notin> announcing s" by (simp add: announcing_def)
  show ?thesis using inv pct L nc na unfolding s'
    by (auto simp: gc_inv_def gc_share_other split: if_splits)
qed

lemma reachable_gc_inv:
  assumes "reachable n waiting s" "\<forall>t<n. waiting t"
  shows "\<exists>c. gc_inv n c s"
  using assms
proof (induction rule: reachable.induct)
  case init
  show ?case using gc_inv_init by blast
next
  case (step s t s')
  then obtain c where "gc_inv n c s" by blast
  from gc_inv_step[OF this step.prems step.hyps(2,3)] show ?case by blast
next
  case (wake s t s')
  then obtain c where "gc_inv n c s" by blast
  from gc_inv_wake[OF this wake.hyps(3)] show ?case by blast
qed

lemma run_reachable:
  "reachable n waiting s \<Longrightarrow> run n waiting ts s = Some s' \<Longrightarrow> reachable n waiting s'"
proof (induction ts arbitrary: s)
  case Nil
  then show ?case by simp
next
  case (Cons t ts)
  from Cons.prems(2) obtain s1 where t: "t < n" and s1: "thread_step n waiting t s = Some s1"
    and r: "run n waiting ts s1 = Some s'"
    by (auto split: if_splits option.splits)
  from reachable.step[OF Cons.prems(1) t s1] have "reachable n waiting s1" .
  from Cons.IH[OF this r] show ?case .
qed

text \<open>
  A thread that has lost can return: whatever the state, some thread can take a step that
  brings the return nearer.
\<close>

lemma sum_less_at:
  fixes f g :: "nat \<Rightarrow> nat"
  assumes "t < n" "\<forall>u<n. u \<noteq> t \<longrightarrow> f u \<le> g u" "f t < g t"
  shows "(\<Sum>u<n. f u) < (\<Sum>u<n. g u)"
proof (rule sum_strict_mono_ex1)
  show "finite {..<n}" by simp
  show "\<forall>x\<in>{..<n}. f x \<le> g x"
    using assms by (metis lessThan_iff less_imp_le)
  show "\<exists>a\<in>{..<n}. f a < g a" using assms by auto
qed

lemma gc_rank_collector:
  assumes "t < n" "\<forall>u. u \<noteq> t \<longrightarrow> collector_rank (pc s' u) = collector_rank (pc s u)"
    "collector_rank (pc s' t) < collector_rank (pc s t)"
  shows "(gc_rank n s', gc_rank n s) \<in> less_than <*lex*> less_than"
proof -
  have "(\<Sum>u<n. collector_rank (pc s' u)) < (\<Sum>u<n. collector_rank (pc s u))"
    using assms by (intro sum_less_at[of t]) auto
  then show ?thesis by (simp add: gc_rank_def)
qed

lemma gc_rank_wait:
  assumes "t < n" "\<forall>u. collector_rank (pc s' u) = collector_rank (pc s u)"
    "\<forall>u. u \<noteq> t \<longrightarrow> wait_rank (pc s' u) \<le> wait_rank (pc s u)"
    "wait_rank (pc s' t) < wait_rank (pc s t)"
  shows "(gc_rank n s', gc_rank n s) \<in> less_than <*lex*> less_than"
proof -
  have "(\<Sum>u<n. wait_rank (pc s' u)) < (\<Sum>u<n. wait_rank (pc s u))"
    using assms by (intro sum_less_at[of t]) auto
  moreover have "(\<Sum>u<n. collector_rank (pc s' u)) = (\<Sum>u<n. collector_rank (pc s u))"
    using assms(2) by simp
  ultimately show ?thesis by (simp add: gc_rank_def)
qed

lemma call_slot_pc:
  "pc (call_slot t f p s) = (pc s)(t := (case f (globals s) of Inl e \<Rightarrow> Aborted e | Inr g \<Rightarrow> p))"
  by (simp add: call_slot_def split: sum.splits)

text \<open>A step of a thread other than the broadcast leaves the other threads where they are.\<close>

lemma thread_step_others:
  assumes "thread_step n waiting t s = Some s'" "u \<noteq> t"
  shows "pc s' u = (if pc s t = EG_broadcast \<and> pc s u = WG_waiting then WG_woken else pc s u)"
  using assms
  by (cases "pc s t")
     (auto simp: thread_step_def call_slot_pc uv_cond_broadcast_def on_globals_def
        split: if_splits bool.splits)

lemma losing_not_single:
  assumes "gc_inv n c s" "losing (pc s t)"
  shows "n \<noteq> 1"
proof
  assume "n = 1"
  from gc_inv_thread(4)[OF assms(1) this, of t] assms(2) show False
    by (cases "pc s t") auto
qed

text \<open>The thread that has the lock goes on, and gives the lock back after a few steps.\<close>

lemma holder_progress:
  assumes inv: "gc_inv n c s" and w: "\<forall>t<n. waiting t" and t: "t < n"
    and lo: "losing (pc s t)" and lk: "safepoint_lock s = Some u"
  shows "\<exists>s'. u < n \<and> thread_step n waiting u s = Some s' \<and> losing (pc s' t) \<and>
           (gc_rank n s', gc_rank n s) \<in> less_than <*lex*> less_than"
proof -
  from gc_inv_thread(2)[OF inv, of u] lk have h: "holds_lock (pc s u)" by simp
  have u: "u < n"
  proof (rule ccontr)
    assume "\<not> u < n"
    with gc_inv_thread(5)[OF inv, of u] h show False by simp
  qed
  from h have "thread_step n waiting u s \<noteq> None"
    by (cases "pc s u") (auto simp: thread_step_def)
  then obtain s' where st: "thread_step n waiting u s = Some s'" by blast
  from gc_inv_step[OF inv w u st] have inv': "gc_inv n (next_collector n u s c) s'" .
  from gc_inv_thread(3)[OF inv', of u] have na: "\<not> aborted (pc s' u)" .
  from h have nb: "pc s u \<noteq> EG_broadcast" by auto
  have oth: "pc s' v = pc s v" if "v \<noteq> u" for v
    using thread_step_others[OF st that] nb by simp
  have B: "jl_gc_running (globals s) = (if c = None then 0 else 1)"
    using inv by (simp add: gc_inv_def)
  have nxt: "(collector_rank (pc s' u) < collector_rank (pc s u) \<or>
              collector_rank (pc s' u) = collector_rank (pc s u) \<and>
              wait_rank (pc s' u) < wait_rank (pc s u)) \<and>
             (losing (pc s u) \<longrightarrow> losing (pc s' u))"
    using h st na
    by (cases "pc s u")
       (auto simp: thread_step_def call_slot_pc split: if_splits sum.splits)
  have lt: "losing (pc s' t)"
    using nxt oth[of t] lo by (cases "t = u") auto
  have "(gc_rank n s', gc_rank n s) \<in> less_than <*lex*> less_than"
  proof (cases "collector_rank (pc s' u) < collector_rank (pc s u)")
    case True
    show ?thesis by (rule gc_rank_collector[OF u _ True]) (simp add: oth)
  next
    case False
    with nxt have e: "collector_rank (pc s' u) = collector_rank (pc s u)"
      and l: "wait_rank (pc s' u) < wait_rank (pc s u)" by auto
    have "\<forall>v. collector_rank (pc s' v) = collector_rank (pc s v)"
      using e oth by (metis)
    moreover have "\<forall>v. v \<noteq> u \<longrightarrow> wait_rank (pc s' v) \<le> wait_rank (pc s v)"
      using oth by simp
    ultimately show ?thesis using l by (intro gc_rank_wait[OF u])
  qed
  with u st lt show ?thesis by blast
qed

text \<open>With the lock free, the collector goes on to end its collection.\<close>

lemma collector_progress:
  assumes inv: "gc_inv n c s" and w: "\<forall>t<n. waiting t" and t: "t < n"
    and lo: "losing (pc s t)" and lk: "safepoint_lock s = None" and c: "c = Some u"
  shows "\<exists>s'. u < n \<and> thread_step n waiting u s = Some s' \<and> losing (pc s' t) \<and>
           (gc_rank n s', gc_rank n s) \<in> less_than <*lex*> less_than"
proof -
  from gc_inv_thread(1)[OF inv, of u] c have co: "collecting (pc s u)" by simp
  from gc_inv_thread(2)[OF inv, of u] lk have nh: "\<not> holds_lock (pc s u)" by simp
  have p: "pc s u = Returned True \<or> pc s u = EG_lock"
  proof (cases "pc s u")
    case (Returned b)
    with co show ?thesis by (cases b) auto
  qed (use co nh in auto)
  have u: "u < n"
  proof (rule ccontr)
    assume "\<not> u < n"
    with gc_inv_thread(5)[OF inv, of u] co show False by simp
  qed
  from lo co have tu: "t \<noteq> u" by (cases "pc s t") auto
  note n1 = losing_not_single[OF inv lo]
  have B: "jl_gc_running (globals s) = 1"
    using inv c by (simp add: gc_inv_def)
  from p lk n1 B obtain s' where st: "thread_step n waiting u s = Some s'"
    and r: "collector_rank (pc s' u) < collector_rank (pc s u)"
    by (auto simp: thread_step_def)
  from p have nb: "pc s u \<noteq> EG_broadcast" by auto
  have oth: "pc s' v = pc s v" if "v \<noteq> u" for v
    using thread_step_others[OF st that] nb by simp
  have "(gc_rank n s', gc_rank n s) \<in> less_than <*lex*> less_than"
    by (rule gc_rank_collector[OF u _ r]) (simp add: oth)
  moreover from oth[OF tu] lo have "losing (pc s' t)" by simp
  ultimately show ?thesis using u st by blast
qed

text \<open>With the lock free and no collector, a thread blocked on the condition variable is
  woken by the broadcast that is still due.\<close>

lemma announcer_progress:
  assumes inv: "gc_inv n c s" and w: "\<forall>t<n. waiting t" and t: "t < n"
    and wt: "pc s t = WG_waiting" and lk: "safepoint_lock s = None" and c: "c = None"
  shows "\<exists>u s'. u < n \<and> thread_step n waiting u s = Some s' \<and> losing (pc s' t) \<and>
           (gc_rank n s', gc_rank n s) \<in> less_than <*lex*> less_than"
proof -
  from wt have "waiters s \<noteq> {}" by (auto simp: waiters_def)
  with inv c obtain u where a: "u \<in> announcing s" by (auto simp: gc_inv_def)
  from gc_inv_thread(2)[OF inv, of u] lk have nh: "\<not> holds_lock (pc s u)" by simp
  with a have p: "pc s u = EG_broadcast" by (auto simp: announcing_def)
  have u: "u < n"
  proof (rule ccontr)
    assume "\<not> u < n"
    with gc_inv_thread(5)[OF inv, of u] p show False by simp
  qed
  from p wt have tu: "t \<noteq> u" by auto
  from p obtain s' where st: "thread_step n waiting u s = Some s'" and pu: "pc s' u = Idle"
    by (auto simp: thread_step_def)
  have oth: "pc s' v = (if pc s v = WG_waiting then WG_woken else pc s v)" if "v \<noteq> u" for v
    using thread_step_others[OF st that] p by simp
  have "(gc_rank n s', gc_rank n s) \<in> less_than <*lex*> less_than"
  proof (rule gc_rank_wait[OF u])
    show "\<forall>v. collector_rank (pc s' v) = collector_rank (pc s v)"
    proof
      fix v
      show "collector_rank (pc s' v) = collector_rank (pc s v)"
        by (cases "v = u") (auto simp: oth pu p)
    qed
    show "\<forall>v. v \<noteq> u \<longrightarrow> wait_rank (pc s' v) \<le> wait_rank (pc s v)"
      using oth by simp
    show "wait_rank (pc s' u) < wait_rank (pc s u)" using pu p by simp
  qed
  moreover from oth[OF tu] wt have "losing (pc s' t)" by simp
  ultimately show ?thesis using u st by blast
qed

text \<open>With the lock free and no collector, the thread in \<^verbatim>\<open>jl_safepoint_wait_gc\<close> goes
  on towards its return.\<close>

lemma loser_own_progress:
  assumes inv: "gc_inv n c s" and w: "\<forall>t<n. waiting t" and t: "t < n"
    and lo: "losing (pc s t)" and nw: "pc s t \<noteq> WG_waiting"
    and lk: "safepoint_lock s = None" and c: "c = None"
  shows "\<exists>s'. thread_step n waiting t s = Some s' \<and>
           (pc s' t = Returned False \<or>
            losing (pc s' t) \<and> (gc_rank n s', gc_rank n s) \<in> less_than <*lex*> less_than)"
proof -
  from gc_inv_thread(2)[OF inv, of t] lk have nh: "\<not> holds_lock (pc s t)" by simp
  have B: "jl_gc_running (globals s) = 0"
    using inv c by (simp add: gc_inv_def)
  from lo nw nh lk B obtain s' where st: "thread_step n waiting t s = Some s'"
    and r: "pc s' t = Returned False \<or>
            losing (pc s' t) \<and> collector_rank (pc s' t) = collector_rank (pc s t) \<and>
            wait_rank (pc s' t) < wait_rank (pc s t)"
    by (cases "pc s t") (auto simp: thread_step_def)
  from lo have nb: "pc s t \<noteq> EG_broadcast" by auto
  have oth: "pc s' v = pc s v" if "v \<noteq> t" for v
    using thread_step_others[OF st that] nb by simp
  show ?thesis
  proof (cases "pc s' t = Returned False")
    case True
    with st show ?thesis by blast
  next
    case False
    with r have l: "losing (pc s' t)"
      and e: "collector_rank (pc s' t) = collector_rank (pc s t)"
      and d: "wait_rank (pc s' t) < wait_rank (pc s t)" by auto
    have "(gc_rank n s', gc_rank n s) \<in> less_than <*lex*> less_than"
    proof (rule gc_rank_wait[OF t _ _ d])
      show "\<forall>v. collector_rank (pc s' v) = collector_rank (pc s v)"
        using e oth by metis
      show "\<forall>v. v \<noteq> t \<longrightarrow> wait_rank (pc s' v) \<le> wait_rank (pc s v)"
        using oth by simp
    qed
    with st l show ?thesis by blast
  qed
qed

lemma loser_progress:
  assumes inv: "gc_inv n c s" and w: "\<forall>t<n. waiting t" and t: "t < n"
    and lo: "losing (pc s t)"
  shows "\<exists>u s'. u < n \<and> thread_step n waiting u s = Some s' \<and>
           (pc s' t = Returned False \<or>
            losing (pc s' t) \<and> (gc_rank n s', gc_rank n s) \<in> less_than <*lex*> less_than)"
proof (cases "safepoint_lock s")
  case (Some u)
  from holder_progress[OF inv w t lo Some] show ?thesis by blast
next
  case None
  show ?thesis
  proof (cases c)
    case (Some u)
    from collector_progress[OF inv w t lo None Some] show ?thesis by blast
  next
    case cn: None
    show ?thesis
    proof (cases "pc s t = WG_waiting")
      case True
      from announcer_progress[OF inv w t True None cn] show ?thesis by blast
    next
      case False
      from loser_own_progress[OF inv w t lo False None cn] t show ?thesis by blast
    qed
  qed
qed

lemma loser_can_return_inv:
  assumes w: "\<forall>t<n. waiting t" and t: "t < n"
  shows "gc_inv n c s \<Longrightarrow> losing (pc s t) \<Longrightarrow>
         \<exists>ts s'. run n waiting ts s = Some s' \<and> pc s' t = Returned False"
  using wf_lex_prod[OF wf_less_than wf_less_than]
proof (induction "gc_rank n s" arbitrary: s c rule: wf_induct_rule)
  case less
  from loser_progress[OF less.prems(1) w t less.prems(2)]
  obtain u s1 where u: "u < n" and st: "thread_step n waiting u s = Some s1"
    and r: "pc s1 t = Returned False \<or>
            losing (pc s1 t) \<and> (gc_rank n s1, gc_rank n s) \<in> less_than <*lex*> less_than"
    by blast
  show ?case
  proof (cases "pc s1 t = Returned False")
    case True
    with u st have "run n waiting [u] s = Some s1" by simp
    with True show ?thesis by blast
  next
    case False
    with r have l: "losing (pc s1 t)"
      and d: "(gc_rank n s1, gc_rank n s) \<in> less_than <*lex*> less_than" by auto
    from gc_inv_step[OF less.prems(1) w u st]
    have "gc_inv n (next_collector n u s c) s1" .
    from less.hyps[OF d this l]
    obtain ts s' where "run n waiting ts s1 = Some s'" "pc s' t = Returned False" by blast
    with u st have "run n waiting (u # ts) s = Some s'" "pc s' t = Returned False" by simp_all
    then show ?thesis by blast
  qed
qed

lemma loser_can_return:
  assumes "reachable n waiting s" "\<forall>t<n. waiting t" "t < n" "losing (pc s t)"
  shows "\<exists>ts s'. run n waiting ts s = Some s' \<and> pc s' t = Returned False"
proof -
  from reachable_gc_inv[OF assms(1,2)] obtain c where "gc_inv n c s" by blast
  from loser_can_return_inv[OF assms(2,3) this assms(4)] show ?thesis .
qed

text \<open>
  Claim C1 as stated: among any set of concurrent callers of \<^verbatim>\<open>jl_safepoint_start_gc\<close>
  exactly one wins the compare-and-swap and returns true, and every other caller returns false.
  With two threads: thread 1 enters the call and is about to take the lock; thread 0 then makes
  its whole call, wins, collects and ends the collection; thread 1 goes on, finds
  \<^verbatim>\<open>jl_gc_running\<close> at 0, and wins as well.  Both calls return true.
\<close>

theorem gc_election_counterexample:
  "map_option (\<lambda>s. pc s 1) (run 2 (\<lambda>t. True) [1] gc_init) = Some SG_lock \<and>
   map_option returned
     (run 2 (\<lambda>t. True) [1, 0, 0, 0, 0, 0, 0, 0, 0, 0, 0, 0, 0, 0, 1, 1, 1, 1, 1] gc_init) =
     Some [(0, True), (1, True)]"
  by code_simp


text \<open>
  Claim C1, amended.  In every state that \<open>n\<close> threads reach (each having set its
  \<^verbatim>\<open>gc_state\<close> before the call): at most one thread is the collector, and
  \<^verbatim>\<open>jl_gc_running\<close> is nonzero exactly while there is one; a thread whose call has
  returned true on the multi-thread path has slots 1 and 2 enabled (counter 1, page
  inaccessible) and does not hold the lock; no assertion has failed; and a thread blocked on the
  condition variable always has a collector, or a thread about to broadcast, to wake it.  For
  every step of a thread \<open>t\<close>: with exactly one thread the call stores 1 with relaxed order and
  returns true without touching the lock; the compare-and-swap, made with the lock held, wins
  exactly when no thread is the collector, and loses otherwise; the thread that lost releases
  the lock and enters \<^verbatim>\<open>jl_safepoint_wait_gc\<close>; a call returns false only from the acquire
  load of \<^verbatim>\<open>jl_safepoint_wait_gc\<close> with \<^verbatim>\<open>jl_gc_running\<close> observed 0; and a call
  returns true only on the single-thread path or from the unlock that follows the two enables.
  The winner's unlock returns true.  In \<^verbatim>\<open>jl_safepoint_wait_gc\<close> the relaxed load goes on
  to the acquire load when it reads 0 and to the lock otherwise; the acquire load returns
  false when it reads 0 and goes to the lock otherwise; with the lock held the thread blocks
  on the condition variable, releasing the lock, while \<^verbatim>\<open>jl_gc_running\<close> is nonzero, and
  otherwise unlocks and loads again; a woken thread takes the lock, unlocks and loads again;
  the broadcast wakes every blocked thread.  A thread has a step unless it is blocked on the
  condition variable or wants the lock while it is taken, and the thread that has the lock
  always has a step.  From every reachable state in which a thread has lost and not yet
  returned, some schedule makes its call return false.
\<close>

theorem gc_election:
  assumes "reachable n waiting s" "\<forall>t<n. waiting t"
  shows
   "(\<forall>t u. collecting (pc s t) \<and> collecting (pc s u) \<longrightarrow> t = u) \<and>
    ((jl_gc_running (globals s) \<noteq> 0) = (\<exists>t. collecting (pc s t))) \<and>
    (\<forall>t. pc s t = Returned True \<and> n \<noteq> 1 \<longrightarrow>
        jl_safepoint_enable_cnt (globals s) 1 = 1 \<and> jl_safepoint_enable_cnt (globals s) 2 = 1 \<and>
        page_prot (globals s) 1 = PROT_NONE \<and> page_prot (globals s) 2 = PROT_NONE \<and>
        safepoint_lock s \<noteq> Some t) \<and>
    (\<forall>t e. pc s t \<noteq> Aborted e) \<and>
    (waiters s \<noteq> {} \<longrightarrow> (\<exists>u. collecting (pc s u) \<or> u \<in> announcing s)) \<and>
    (\<forall>t s'. t < n \<and> thread_step n waiting t s = Some s' \<longrightarrow>
        (n = 1 \<and> pc s t = Idle \<longrightarrow>
           pc s' t = Returned True \<and> jl_gc_running (globals s') = 1 \<and>
           safepoint_lock s' = safepoint_lock s \<and>
           trace (globals s') = trace (globals s) @ [StoreRelaxed 1]) \<and>
        (pc s t = SG_cas \<longrightarrow>
           (if \<exists>u. collecting (pc s u)
            then pc s' t = SG_unlock_lost \<and> jl_gc_running (globals s') = jl_gc_running (globals s)
            else pc s' t = SG_enable1 \<and> jl_gc_running (globals s') = 1)) \<and>
        (pc s t = SG_unlock_lost \<longrightarrow> pc s' t = WG_load_relaxed \<and> safepoint_lock s' = None) \<and>
        (pc s' t = Returned False \<longrightarrow>
           pc s t = WG_load_acquire \<and> jl_gc_running (globals s) = 0) \<and>
        (pc s' t = Returned True \<longrightarrow> pc s t = SG_unlock_won \<or> n = 1 \<and> pc s t = Idle)) \<and>
    (\<forall>t s'. t < n \<and> thread_step n waiting t s = Some s' \<longrightarrow>
        (pc s t = SG_unlock_won \<longrightarrow>
           pc s' t = Returned True \<and> safepoint_lock s' = None \<and>
           returned s' = returned s @ [(t, True)]) \<and>
        (pc s t = WG_load_relaxed \<longrightarrow>
           pc s' t = (if jl_gc_running (globals s) = 0 then WG_load_acquire else WG_lock)) \<and>
        (pc s t = WG_load_acquire \<longrightarrow>
           (if jl_gc_running (globals s) = 0
            then pc s' t = Returned False \<and> returned s' = returned s @ [(t, False)]
            else pc s' t = WG_lock)) \<and>
        (pc s t = WG_lock \<longrightarrow> pc s' t = WG_check \<and> safepoint_lock s' = Some t) \<and>
        (pc s t = WG_check \<longrightarrow>
           (if jl_gc_running (globals s) = 0 then pc s' t = WG_unlock
            else pc s' t = WG_waiting \<and> safepoint_lock s' = None)) \<and>
        (pc s t = WG_woken \<longrightarrow> pc s' t = WG_unlock \<and> safepoint_lock s' = Some t) \<and>
        (pc s t = WG_unlock \<longrightarrow> pc s' t = WG_load_relaxed \<and> safepoint_lock s' = None) \<and>
        (pc s t = EG_broadcast \<longrightarrow> (\<forall>u. pc s u = WG_waiting \<longrightarrow> pc s' u = WG_woken))) \<and>
    (\<forall>t<n. (thread_step n waiting t s = None) =
        (pc s t = WG_waiting \<or>
         safepoint_lock s \<noteq> None \<and>
         (pc s t = SG_lock \<or> pc s t = WG_lock \<or> pc s t = WG_woken \<or> pc s t = EG_lock))) \<and>
    (\<forall>u. safepoint_lock s = Some u \<longrightarrow> u < n \<and> thread_step n waiting u s \<noteq> None) \<and>
    (\<forall>t<n. losing (pc s t) \<longrightarrow>
        (\<exists>ts s'. run n waiting ts s = Some s' \<and> pc s' t = Returned False))"
proof -
  from reachable_gc_inv[OF assms] obtain c where inv: "gc_inv n c s" by blast
  have A: "\<forall>t u. collecting (pc s t) \<and> collecting (pc s u) \<longrightarrow> t = u"
    using inv by (auto simp: gc_inv_def)
  have B: "(jl_gc_running (globals s) \<noteq> 0) = (\<exists>t. collecting (pc s t))"
    using inv by (cases c) (simp_all add: gc_inv_def)
  have C: "\<forall>t. pc s t = Returned True \<and> n \<noteq> 1 \<longrightarrow>
        jl_safepoint_enable_cnt (globals s) 1 = 1 \<and> jl_safepoint_enable_cnt (globals s) 2 = 1 \<and>
        page_prot (globals s) 1 = PROT_NONE \<and> page_prot (globals s) 2 = PROT_NONE \<and>
        safepoint_lock s \<noteq> Some t"
  proof (intro allI impI)
    fix t assume a: "pc s t = Returned True \<and> n \<noteq> 1"
    note L = gc_inv_thread[OF inv, of t]
    from L(1) a have c: "c = Some t" by simp
    from L(2) a have l: "safepoint_lock s \<noteq> Some t" by simp
    from inv c a l show "jl_safepoint_enable_cnt (globals s) 1 = 1 \<and>
        jl_safepoint_enable_cnt (globals s) 2 = 1 \<and>
        page_prot (globals s) 1 = PROT_NONE \<and> page_prot (globals s) 2 = PROT_NONE \<and>
        safepoint_lock s \<noteq> Some t"
      by (simp add: gc_inv_def gc_share_def prot_of_cnt_def)
  qed
  have D: "\<forall>t e. pc s t \<noteq> Aborted e"
  proof (intro allI)
    fix t e
    from gc_inv_thread(3)[OF inv, of t] show "pc s t \<noteq> Aborted e" by (cases "pc s t") auto
  qed
  have E: "waiters s \<noteq> {} \<longrightarrow> (\<exists>u. collecting (pc s u) \<or> u \<in> announcing s)"
    using inv by (cases c) (auto simp: gc_inv_def)
  have F: "\<forall>t s'. t < n \<and> thread_step n waiting t s = Some s' \<longrightarrow>
        (n = 1 \<and> pc s t = Idle \<longrightarrow>
           pc s' t = Returned True \<and> jl_gc_running (globals s') = 1 \<and>
           safepoint_lock s' = safepoint_lock s \<and>
           trace (globals s') = trace (globals s) @ [StoreRelaxed 1]) \<and>
        (pc s t = SG_cas \<longrightarrow>
           (if \<exists>u. collecting (pc s u)
            then pc s' t = SG_unlock_lost \<and> jl_gc_running (globals s') = jl_gc_running (globals s)
            else pc s' t = SG_enable1 \<and> jl_gc_running (globals s') = 1)) \<and>
        (pc s t = SG_unlock_lost \<longrightarrow> pc s' t = WG_load_relaxed \<and> safepoint_lock s' = None) \<and>
        (pc s' t = Returned False \<longrightarrow>
           pc s t = WG_load_acquire \<and> jl_gc_running (globals s) = 0) \<and>
        (pc s' t = Returned True \<longrightarrow> pc s t = SG_unlock_won \<or> n = 1 \<and> pc s t = Idle)"
  proof (intro allI impI, elim conjE)
    fix t s' assume t: "t < n" and st: "thread_step n waiting t s = Some s'"
    from D have na: "\<And>e. pc s t \<noteq> Aborted e" by simp
    have F1: "n = 1 \<and> pc s t = Idle \<longrightarrow>
           pc s' t = Returned True \<and> jl_gc_running (globals s') = 1 \<and>
           safepoint_lock s' = safepoint_lock s \<and>
           trace (globals s') = trace (globals s) @ [StoreRelaxed 1]"
      using st by (auto simp: thread_step_def)
    have F2: "pc s t = SG_cas \<longrightarrow>
           (if \<exists>u. collecting (pc s u)
            then pc s' t = SG_unlock_lost \<and> jl_gc_running (globals s') = jl_gc_running (globals s)
            else pc s' t = SG_enable1 \<and> jl_gc_running (globals s') = 1)"
      using st B by (auto simp: thread_step_def split: if_splits)
    have F3: "pc s t = SG_unlock_lost \<longrightarrow> pc s' t = WG_load_relaxed \<and> safepoint_lock s' = None"
      using st by (auto simp: thread_step_def)
    have F4: "pc s' t = Returned False \<longrightarrow>
           pc s t = WG_load_acquire \<and> jl_gc_running (globals s) = 0"
      using st assms(2) t
      by (cases "pc s t")
         (auto simp: thread_step_def call_slot_def uv_cond_broadcast_def
            split: if_splits sum.splits bool.splits)
    have F5: "pc s' t = Returned True \<longrightarrow> pc s t = SG_unlock_won \<or> n = 1 \<and> pc s t = Idle"
      using st assms(2) t
      by (cases "pc s t")
         (auto simp: thread_step_def call_slot_def uv_cond_broadcast_def
            split: if_splits sum.splits bool.splits)
    from F1 F2 F3 F4 F5 show "(n = 1 \<and> pc s t = Idle \<longrightarrow>
           pc s' t = Returned True \<and> jl_gc_running (globals s') = 1 \<and>
           safepoint_lock s' = safepoint_lock s \<and>
           trace (globals s') = trace (globals s) @ [StoreRelaxed 1]) \<and>
        (pc s t = SG_cas \<longrightarrow>
           (if \<exists>u. collecting (pc s u)
            then pc s' t = SG_unlock_lost \<and> jl_gc_running (globals s') = jl_gc_running (globals s)
            else pc s' t = SG_enable1 \<and> jl_gc_running (globals s') = 1)) \<and>
        (pc s t = SG_unlock_lost \<longrightarrow> pc s' t = WG_load_relaxed \<and> safepoint_lock s' = None) \<and>
        (pc s' t = Returned False \<longrightarrow>
           pc s t = WG_load_acquire \<and> jl_gc_running (globals s) = 0) \<and>
        (pc s' t = Returned True \<longrightarrow> pc s t = SG_unlock_won \<or> n = 1 \<and> pc s t = Idle)"
      by blast
  qed
  have W: "\<forall>t s'. t < n \<and> thread_step n waiting t s = Some s' \<longrightarrow>
        (pc s t = SG_unlock_won \<longrightarrow>
           pc s' t = Returned True \<and> safepoint_lock s' = None \<and>
           returned s' = returned s @ [(t, True)]) \<and>
        (pc s t = WG_load_relaxed \<longrightarrow>
           pc s' t = (if jl_gc_running (globals s) = 0 then WG_load_acquire else WG_lock)) \<and>
        (pc s t = WG_load_acquire \<longrightarrow>
           (if jl_gc_running (globals s) = 0
            then pc s' t = Returned False \<and> returned s' = returned s @ [(t, False)]
            else pc s' t = WG_lock)) \<and>
        (pc s t = WG_lock \<longrightarrow> pc s' t = WG_check \<and> safepoint_lock s' = Some t) \<and>
        (pc s t = WG_check \<longrightarrow>
           (if jl_gc_running (globals s) = 0 then pc s' t = WG_unlock
            else pc s' t = WG_waiting \<and> safepoint_lock s' = None)) \<and>
        (pc s t = WG_woken \<longrightarrow> pc s' t = WG_unlock \<and> safepoint_lock s' = Some t) \<and>
        (pc s t = WG_unlock \<longrightarrow> pc s' t = WG_load_relaxed \<and> safepoint_lock s' = None) \<and>
        (pc s t = EG_broadcast \<longrightarrow> (\<forall>u. pc s u = WG_waiting \<longrightarrow> pc s' u = WG_woken))"
  proof (intro allI impI, elim conjE)
    fix t s' assume t: "t < n" and st: "thread_step n waiting t s = Some s'"
    have W1: "pc s t = SG_unlock_won \<longrightarrow>
           pc s' t = Returned True \<and> safepoint_lock s' = None \<and>
           returned s' = returned s @ [(t, True)]"
      using st by (auto simp: thread_step_def)
    have W2: "pc s t = WG_load_relaxed \<longrightarrow>
           pc s' t = (if jl_gc_running (globals s) = 0 then WG_load_acquire else WG_lock)"
      using st by (auto simp: thread_step_def)
    have W3: "pc s t = WG_load_acquire \<longrightarrow>
           (if jl_gc_running (globals s) = 0
            then pc s' t = Returned False \<and> returned s' = returned s @ [(t, False)]
            else pc s' t = WG_lock)"
      using st by (auto simp: thread_step_def)
    have W4: "pc s t = WG_lock \<longrightarrow> pc s' t = WG_check \<and> safepoint_lock s' = Some t"
      using st by (auto simp: thread_step_def split: if_splits)
    have W5: "pc s t = WG_check \<longrightarrow>
           (if jl_gc_running (globals s) = 0 then pc s' t = WG_unlock
            else pc s' t = WG_waiting \<and> safepoint_lock s' = None)"
      using st by (auto simp: thread_step_def)
    have W6: "pc s t = WG_woken \<longrightarrow> pc s' t = WG_unlock \<and> safepoint_lock s' = Some t"
      using st by (auto simp: thread_step_def split: if_splits)
    have W7: "pc s t = WG_unlock \<longrightarrow> pc s' t = WG_load_relaxed \<and> safepoint_lock s' = None"
      using st by (auto simp: thread_step_def)
    have W8: "pc s t = EG_broadcast \<longrightarrow> (\<forall>u. pc s u = WG_waiting \<longrightarrow> pc s' u = WG_woken)"
      using st by (auto simp: thread_step_def uv_cond_broadcast_def on_globals_def)
    from W1 W2 W3 W4 W5 W6 W7 W8 show "(pc s t = SG_unlock_won \<longrightarrow>
           pc s' t = Returned True \<and> safepoint_lock s' = None \<and>
           returned s' = returned s @ [(t, True)]) \<and>
        (pc s t = WG_load_relaxed \<longrightarrow>
           pc s' t = (if jl_gc_running (globals s) = 0 then WG_load_acquire else WG_lock)) \<and>
        (pc s t = WG_load_acquire \<longrightarrow>
           (if jl_gc_running (globals s) = 0
            then pc s' t = Returned False \<and> returned s' = returned s @ [(t, False)]
            else pc s' t = WG_lock)) \<and>
        (pc s t = WG_lock \<longrightarrow> pc s' t = WG_check \<and> safepoint_lock s' = Some t) \<and>
        (pc s t = WG_check \<longrightarrow>
           (if jl_gc_running (globals s) = 0 then pc s' t = WG_unlock
            else pc s' t = WG_waiting \<and> safepoint_lock s' = None)) \<and>
        (pc s t = WG_woken \<longrightarrow> pc s' t = WG_unlock \<and> safepoint_lock s' = Some t) \<and>
        (pc s t = WG_unlock \<longrightarrow> pc s' t = WG_load_relaxed \<and> safepoint_lock s' = None) \<and>
        (pc s t = EG_broadcast \<longrightarrow> (\<forall>u. pc s u = WG_waiting \<longrightarrow> pc s' u = WG_woken))"
      by blast
  qed
  have G: "\<forall>t<n. (thread_step n waiting t s = None) =
        (pc s t = WG_waiting \<or>
         safepoint_lock s \<noteq> None \<and>
         (pc s t = SG_lock \<or> pc s t = WG_lock \<or> pc s t = WG_woken \<or> pc s t = EG_lock))"
  proof (intro allI impI)
    fix t assume t: "t < n"
    from D have "\<forall>e. pc s t \<noteq> Aborted e" by blast
    then show "(thread_step n waiting t s = None) =
        (pc s t = WG_waiting \<or>
         safepoint_lock s \<noteq> None \<and>
         (pc s t = SG_lock \<or> pc s t = WG_lock \<or> pc s t = WG_woken \<or> pc s t = EG_lock))"
      by (cases "pc s t") (auto simp: thread_step_def split: bool.splits)
  qed
  have H: "\<forall>u. safepoint_lock s = Some u \<longrightarrow> u < n \<and> thread_step n waiting u s \<noteq> None"
  proof (intro allI impI)
    fix u assume lk: "safepoint_lock s = Some u"
    from gc_inv_thread(2)[OF inv, of u] lk have h: "holds_lock (pc s u)" by simp
    have "u < n"
    proof (rule ccontr)
      assume "\<not> u < n"
      with gc_inv_thread(5)[OF inv, of u] h show False by simp
    qed
    moreover from h have "thread_step n waiting u s \<noteq> None"
      by (cases "pc s u") (auto simp: thread_step_def)
    ultimately show "u < n \<and> thread_step n waiting u s \<noteq> None" by blast
  qed
  have I: "\<forall>t<n. losing (pc s t) \<longrightarrow>
        (\<exists>ts s'. run n waiting ts s = Some s' \<and> pc s' t = Returned False)"
    using loser_can_return_inv[OF assms(2) _ inv] by blast
  from A B C D E F W G H I show ?thesis by blast
qed

theorem gc_election_witness:
  "(case run 2 (\<lambda>t. True) [0, 0, 0, 0, 0, 0, 1, 1, 1, 1] gc_init of
     None \<Rightarrow> False
   | Some s \<Rightarrow>
       pc s 0 = Returned True \<and> pc s 1 = WG_load_relaxed \<and>
       jl_gc_running (globals s) \<noteq> 0 \<and>
       jl_safepoint_enable_cnt (globals s) 1 = 1 \<and> jl_safepoint_enable_cnt (globals s) 2 = 1 \<and>
       page_prot (globals s) 1 = PROT_NONE \<and> page_prot (globals s) 2 = PROT_NONE \<and>
       safepoint_lock s \<noteq> Some 0 \<and>
       (\<exists>ts s'. run 2 (\<lambda>t. True) ts s = Some s' \<and> pc s' 1 = Returned False)) \<and>
   (case run 2 (\<lambda>t. True) loser_schedule gc_init of
     None \<Rightarrow> False
   | Some s \<Rightarrow>
       pc s 1 = WG_load_acquire \<and> jl_gc_running (globals s) = 0 \<and>
       (\<exists>s'. thread_step 2 (\<lambda>t. True) 1 s = Some s' \<and> pc s' 1 = Returned False \<and>
          returned s' = [(0, True), (1, False)]))"
proof -
  have "map_option (\<lambda>s. (pc s 0, pc s 1))
          (run 2 (\<lambda>t. True) [0, 0, 0, 0, 0, 0, 1, 1, 1, 1] gc_init) =
        Some (Returned True, WG_load_relaxed)"
    by code_simp
  then obtain s where r: "run 2 (\<lambda>t. True) [0, 0, 0, 0, 0, 0, 1, 1, 1, 1] gc_init = Some s"
    and p: "pc s 0 = Returned True" "pc s 1 = WG_load_relaxed"
    by auto
  from run_reachable[OF reachable.init r] have re: "reachable 2 (\<lambda>t. True) s" .
  have w: "\<forall>t<(2::nat). (\<lambda>t. True) t" by simp
  from p(1) have c: "\<exists>t. collecting (pc s t)" by (intro exI[of _ 0]) simp
  have l: "(1::nat) < 2" "losing (pc s 1)" using p(2) by simp_all
  note E1 = gc_election[OF re w]
  note B1 = E1[THEN conjunct2, THEN conjunct1]
  note C1 = E1[THEN conjunct2, THEN conjunct2, THEN conjunct1, rule_format, of 0]
  note I1 = E1[THEN conjunct2, THEN conjunct2, THEN conjunct2, THEN conjunct2, THEN conjunct2,
    THEN conjunct2, THEN conjunct2, THEN conjunct2, THEN conjunct2, rule_format, of 1]
  from B1 C1 I1 p c l
  have A: "pc s 0 = Returned True \<and> pc s 1 = WG_load_relaxed \<and>
       jl_gc_running (globals s) \<noteq> 0 \<and>
       jl_safepoint_enable_cnt (globals s) 1 = 1 \<and> jl_safepoint_enable_cnt (globals s) 2 = 1 \<and>
       page_prot (globals s) 1 = PROT_NONE \<and> page_prot (globals s) 2 = PROT_NONE \<and>
       safepoint_lock s \<noteq> Some 0 \<and>
       (\<exists>ts s'. run 2 (\<lambda>t. True) ts s = Some s' \<and> pc s' 1 = Returned False)"
    by simp
  have "map_option (\<lambda>s. (pc s 0, pc s 1, returned s))
          (run 2 (\<lambda>t. True) loser_schedule gc_init) =
        Some (Idle, WG_load_acquire, [(0, True)])"
    by code_simp
  then obtain s2 where r2: "run 2 (\<lambda>t. True) loser_schedule gc_init = Some s2"
    and p2: "pc s2 0 = Idle" "pc s2 1 = WG_load_acquire" "returned s2 = [(0, True)]"
    by auto
  from run_reachable[OF reachable.init r2] have re2: "reachable 2 (\<lambda>t. True) s2" .
  note E = gc_election[OF re2 w]
  have nc: "\<not> (\<exists>t. collecting (pc s2 t))"
  proof
    assume "\<exists>t. collecting (pc s2 t)"
    then obtain t where ct: "collecting (pc s2 t)" ..
    have "t < 2"
    proof (rule ccontr)
      assume "\<not> t < 2"
      then have "2 \<le> t" by simp
      from reachable_gc_inv[OF re2 w] obtain c where "gc_inv 2 c s2" ..
      from gc_inv_thread(5)[OF this \<open>2 \<le> t\<close>] ct show False by simp
    qed
    then have "t = 0 \<or> t = 1" by auto
    with ct p2 show False by auto
  qed
  note B2 = E[THEN conjunct2, THEN conjunct1]
  note W2 = E[THEN conjunct2, THEN conjunct2, THEN conjunct2, THEN conjunct2, THEN conjunct2,
    THEN conjunct2, THEN conjunct1, rule_format]
  note G2 = E[THEN conjunct2, THEN conjunct2, THEN conjunct2, THEN conjunct2, THEN conjunct2,
    THEN conjunct2, THEN conjunct2, THEN conjunct1, rule_format, of 1]
  from nc B2 have g: "jl_gc_running (globals s2) = 0" by blast
  from G2 p2(2) have "thread_step 2 (\<lambda>t. True) 1 s2 \<noteq> None" by simp
  then obtain s' where st: "thread_step 2 (\<lambda>t. True) 1 s2 = Some s'" by blast
  from W2[of 1 s'] st p2 g
  have "pc s' 1 = Returned False \<and> returned s' = [(0, True), (1, False)]"
    by simp
  with st g p2 have B: "pc s2 1 = WG_load_acquire \<and> jl_gc_running (globals s2) = 0 \<and>
       (\<exists>s'. thread_step 2 (\<lambda>t. True) 1 s2 = Some s' \<and> pc s' 1 = Returned False \<and>
          returned s' = [(0, True), (1, False)])"
    by blast
  from A B show ?thesis unfolding r r2 by simp
qed

section \<open>Properties of the per-thread signal rendezvous\<close>

lemma rv_inv_init: "quiescent s \<Longrightarrow> rv_inv sg has_task ctx s"
  by (simp add: rv_inv_def quiescent_def untouched_def)

lemma quiescent_init: "quiescent rv_init"
  by (simp add: quiescent_def rv_init_def)

lemmas rv_phase_defs = untouched_def approaching_def publishing_def acknowledged_def parked_def withdrawn_def
  came_by_def leaving_def

lemma rv_inv_timeout:
  assumes "rv_inv sg has_task ctx s" "timeout_step s = Some s'"
  shows "rv_inv sg has_task ctx s'"
  using assms
  by (auto simp: timeout_step_def rv_inv_def rv_phase_defs split: if_splits)

lemma rv_inv_listener:
  assumes "rv_inv sg has_task ctx s" "listener_step sg s = Some s'"
  shows "rv_inv sg has_task ctx s'"
  using assms
  by (cases "lpc s")
     (auto simp: listener_step_def rv_inv_def rv_phase_defs rv_init_def broadcast_exit_def
        resume_request_def split: if_splits option.splits)

lemma rv_inv_target:
  assumes "rv_inv sg has_task ctx s" "target_step has_task ctx s = Some s'"
  shows "rv_inv sg has_task ctx s'"
  using assms
  by (cases "tpc s"; cases "lpc s")
     (auto simp: target_step_def rv_inv_def rv_phase_defs rv_init_def broadcast_caught_def
        resume_request_def split: if_splits option.splits)

lemma rv_inv_step:
  assumes "rv_inv sg has_task ctx s" "rv_step sg has_task ctx m s = Some s'"
  shows "rv_inv sg has_task ctx s'"
  using assms
  by (cases m) (auto simp: rv_step_def intro: rv_inv_listener rv_inv_target rv_inv_timeout)

lemma rv_reachable_inv:
  assumes "quiescent s0" "rv_reachable sg has_task ctx s0 s"
  shows "rv_inv sg has_task ctx s"
  using assms(2)
proof (induction rule: rv_reachable.induct)
  case rv_start
  from assms(1) show ?case by (rule rv_inv_init)
next
  case (rv_next s m s')
  from rv_inv_step[OF rv_next.IH rv_next.hyps(2)] show ?case .
qed

lemma rv_rank_timeout:
  assumes "rv_inv sg has_task ctx s" "timeout_step s = Some s'"
  shows "rv_rank s' < rv_rank s"
  using assms
  by (auto simp: timeout_step_def rv_rank_def split: if_splits)

lemma rv_rank_listener:
  assumes "rv_inv sg has_task ctx s" "listener_step sg s = Some s'"
  shows "rv_rank s' < rv_rank s"
  using assms
  by (cases "lpc s")
     (auto simp: listener_step_def rv_inv_def rv_phase_defs rv_rank_def broadcast_exit_def
        split: if_splits option.splits)

lemma rv_rank_target:
  assumes "rv_inv sg has_task ctx s" "target_step has_task ctx s = Some s'"
  shows "rv_rank s' < rv_rank s"
  using assms
  by (cases "tpc s"; cases "lpc s")
     (auto simp: target_step_def rv_inv_def rv_phase_defs rv_rank_def broadcast_caught_def
        split: if_splits option.splits)

lemma rv_rank_step:
  assumes "rv_inv sg has_task ctx s" "rv_step sg has_task ctx m s = Some s'"
  shows "rv_rank s' < rv_rank s"
  using assms
  by (cases m) (auto simp: rv_step_def intro: rv_rank_listener rv_rank_target rv_rank_timeout)

text \<open>A state in which nothing can move is one in which the listener is done.\<close>

lemma rv_stuck_final:
  assumes "rv_inv sg has_task ctx s" "\<forall>m. rv_step sg has_task ctx m s = None"
  shows "(lpc s = L_skipped \<or> lpc s = L_resumed) \<and> tpc s = T_run \<and> \<not> sigusr2_pending s"
proof -
  from assms(2) have n: "listener_step sg s = None" "target_step has_task ctx s = None"
    "timeout_step s = None"
    using spec[OF assms(2), of Listener_moves] spec[OF assms(2), of Target_moves]
      spec[OF assms(2), of Timeout]
    by (simp_all add: rv_step_def)
  from assms(1) n show ?thesis
    by (cases "lpc s"; cases "tpc s")
       (auto simp: listener_step_def target_step_def timeout_step_def rv_inv_def rv_phase_defs
          split: if_splits option.splits)
qed

lemma rv_inevitable_region:
  assumes step: "\<And>s. rv_inv sg has_task ctx s \<Longrightarrow> R s \<Longrightarrow> \<not> P s \<Longrightarrow>
             (\<exists>m s'. rv_step sg has_task ctx m s = Some s') \<and>
             (\<forall>m s'. rv_step sg has_task ctx m s = Some s' \<longrightarrow> R s' \<or> P s')"
  shows "rv_inv sg has_task ctx s \<Longrightarrow> R s \<Longrightarrow> rv_inevitable sg has_task ctx P s"
proof (induction "rv_rank s" arbitrary: s rule: less_induct)
  case less
  show ?case
  proof (cases "P s")
    case True
    then show ?thesis by (rule rv_now)
  next
    case False
    from step[OF less.prems False]
    have ex: "\<exists>m s'. rv_step sg has_task ctx m s = Some s'"
      and al: "\<forall>m s'. rv_step sg has_task ctx m s = Some s' \<longrightarrow> R s' \<or> P s'"
      by blast+
    show ?thesis
    proof (rule rv_later[OF ex], intro allI impI)
      fix m s'
      assume st: "rv_step sg has_task ctx m s = Some s'"
      from rv_rank_step[OF less.prems(1) st] have lt: "rv_rank s' < rv_rank s" .
      from rv_inv_step[OF less.prems(1) st] have re: "rv_inv sg has_task ctx s'" .
      from al st have "R s' \<or> P s'" by blast
      then show "rv_inevitable sg has_task ctx P s'"
      proof
        assume "R s'"
        from less.hyps[OF lt re this] show ?thesis .
      next
        assume "P s'"
        then show ?thesis by (rule rv_now)
      qed
    qed
  qed
qed

lemma rv_run_reachable:
  "rv_reachable sg has_task ctx s0 s \<Longrightarrow> rv_run sg has_task ctx ms s = Some s' \<Longrightarrow>
   rv_reachable sg has_task ctx s0 s'"
proof (induction ms arbitrary: s)
  case Nil
  then show ?case by simp
next
  case (Cons m ms)
  then show ?case by (auto split: option.splits intro: rv_next)
qed

lemma rv_can_move:
  assumes "rv_inv sg has_task ctx s" "lpc s \<noteq> L_skipped" "lpc s \<noteq> L_resumed"
  shows "\<exists>m s'. rv_step sg has_task ctx m s = Some s'"
proof (rule ccontr)
  assume "\<not> ?thesis"
  then have "\<forall>m. rv_step sg has_task ctx m s = None" by auto
  from rv_stuck_final[OF assms(1) this] assms(2,3) show False by simp
qed

lemma target_keeps_listener:
  assumes "target_step has_task ctx s = Some s'"
  shows "lpc s' = lpc (broadcast_caught s) \<or> lpc s' = lpc s"
  using assms
  by (cases "tpc s") (auto simp: target_step_def split: if_splits)

lemma target_keeps_locals:
  assumes "target_step has_task ctx s = Some s'"
  shows "l_request s' = l_request s \<and> l_waits s' = l_waits s \<and>
         (lpc s \<noteq> L_timedwaiting \<longrightarrow> l_err s' = l_err s)"
  using assms
  by (cases "tpc s") (auto simp: target_step_def broadcast_caught_def split: if_splits)

lemma resuming_listener:
  assumes "rv_inv sg has_task ctx s" "listener_step sg s = Some s'"
    and "(\<exists>c. lpc s = L_suspended (Some c)) \<or> resuming (lpc s)"
  shows "resuming (lpc s') \<or> resume_returns s'"
  using assms
  by (cases "lpc s")
     (auto simp: listener_step_def resuming_def resume_returns_def rv_inv_def leaving_def
        split: if_splits option.splits)

lemma resuming_target:
  assumes "target_step has_task ctx s = Some s'"
    and "(\<exists>c. lpc s = L_suspended (Some c)) \<or> resuming (lpc s)"
  shows "(\<exists>c. lpc s' = L_suspended (Some c)) \<or> resuming (lpc s')"
  using target_keeps_listener[OF assms(1)] assms(2)
  by (auto simp: resuming_def broadcast_caught_def split: if_splits)

lemma resuming_step:
  assumes "rv_inv sg has_task ctx s"
    and "(\<exists>c. lpc s = L_suspended (Some c)) \<or> resuming (lpc s)"
  shows "(\<exists>m s'. rv_step sg has_task ctx m s = Some s') \<and>
         (\<forall>m s'. rv_step sg has_task ctx m s = Some s' \<longrightarrow>
            ((\<exists>c. lpc s' = L_suspended (Some c)) \<or> resuming (lpc s')) \<or> resume_returns s')"
proof (intro conjI allI impI)
  show "\<exists>m s'. rv_step sg has_task ctx m s = Some s'"
    using assms(2) by (intro rv_can_move[OF assms(1)]) (auto simp: resuming_def)
next
  fix m s'
  assume st: "rv_step sg has_task ctx m s = Some s'"
  note I = assms(1)
  show "((\<exists>c. lpc s' = L_suspended (Some c)) \<or> resuming (lpc s')) \<or> resume_returns s'"
  proof (cases m)
    case Listener_moves
    with st have "listener_step sg s = Some s'" by (simp add: rv_step_def)
    from resuming_listener[OF I this assms(2)] show ?thesis by blast
  next
    case Target_moves
    with st have "target_step has_task ctx s = Some s'" by (simp add: rv_step_def)
    from resuming_target[OF this assms(2)] show ?thesis by blast
  next
    case Timeout
    with st assms(2) show ?thesis
      by (auto simp: rv_step_def timeout_step_def resuming_def split: if_splits)
  qed
qed

lemma waiting_again_listener:
  assumes "rv_inv sg has_task ctx s" "listener_step sg s = Some s'"
    and "waiting_again (lpc s) \<and> l_err s \<and> l_request s = - 1"
  shows "(waiting_again (lpc s') \<and> l_err s' \<and> l_request s' = - 1) \<or>
         (suspend_returns ctx s' \<and> l_waits s' = 2)"
  using assms
  by (cases "lpc s")
     (auto simp: listener_step_def waiting_again_def suspend_returns_def rv_inv_def
        parked_def came_by_def acknowledged_def split: if_splits option.splits)

lemma waiting_again_target:
  assumes "target_step has_task ctx s = Some s'"
    and "waiting_again (lpc s) \<and> l_err s \<and> l_request s = - 1"
  shows "waiting_again (lpc s') \<and> l_err s' \<and> l_request s' = - 1"
  using target_keeps_listener[OF assms(1)] target_keeps_locals[OF assms(1)] assms(2)
  by (auto simp: waiting_again_def broadcast_caught_def split: if_splits)

lemma waiting_again_step:
  assumes "rv_inv sg has_task ctx s"
    and "waiting_again (lpc s) \<and> l_err s \<and> l_request s = - 1"
  shows "(\<exists>m s'. rv_step sg has_task ctx m s = Some s') \<and>
         (\<forall>m s'. rv_step sg has_task ctx m s = Some s' \<longrightarrow>
            (waiting_again (lpc s') \<and> l_err s' \<and> l_request s' = - 1) \<or>
            (suspend_returns ctx s' \<and> l_waits s' = 2))"
proof (intro conjI allI impI)
  show "\<exists>m s'. rv_step sg has_task ctx m s = Some s'"
    using assms(2) by (intro rv_can_move[OF assms(1)]) (auto simp: waiting_again_def)
next
  fix m s'
  assume st: "rv_step sg has_task ctx m s = Some s'"
  note I = assms(1)
  show "(waiting_again (lpc s') \<and> l_err s' \<and> l_request s' = - 1) \<or>
        (suspend_returns ctx s' \<and> l_waits s' = 2)"
  proof (cases m)
    case Listener_moves
    with st have "listener_step sg s = Some s'" by (simp add: rv_step_def)
    from waiting_again_listener[OF I this assms(2)] show ?thesis .
  next
    case Target_moves
    with st have "target_step has_task ctx s = Some s'" by (simp add: rv_step_def)
    from waiting_again_target[OF this assms(2)] show ?thesis by blast
  next
    case Timeout
    with st assms(2) show ?thesis
      by (auto simp: rv_step_def timeout_step_def waiting_again_def split: if_splits)
  qed
qed

lemma returned_contextD: "returned_context s \<Longrightarrow> \<exists>c. lpc s = L_suspended (Some c)"
  by (auto simp: returned_context_def split: l_pc.splits option.splits)

subsection \<open>The round trip\<close>

text \<open>
  What claim C6 says holds for every round that starts with the target quiescent
  (\<^verbatim>\<open>signal_request\<close> 0, no \<^verbatim>\<open>SIGUSR2\<close> pending, outside the handler).  In every
  state of such a round no
  assertion of \<^verbatim>\<open>jl_thread_suspend_and_get_state\<close>, \<^verbatim>\<open>jl_thread_resume\<close> or
  \<^verbatim>\<open>usr2_handler\<close> has failed.  When the suspend has returned a context, it is the one the
  handler published, \<^verbatim>\<open>signal_request\<close> is 0, the handler waits on
  \<^verbatim>\<open>exit_signal_cond\<close>, and the resume that follows returns on every schedule, with
  \<^verbatim>\<open>signal_request\<close> 0 and the mutex released.  The resume stores 3 when \<open>sg = - 1\<close> and
  1 otherwise; the handler, woken from its wait, finds exactly that value (so 1 or 3),
  exchanges it for 0 and then broadcasts \<^verbatim>\<open>signal_caught_cond\<close>, which wakes the listener.
\<close>

theorem rendezvous_roundtrip:
  assumes "quiescent s0" "rv_reachable sg has_task ctx s0 s"
  shows "lpc s \<noteq> L_failed \<and> tpc s \<noteq> T_failed \<and>
     (lpc s = L_load \<longrightarrow> signal_request s = 0 \<and> signal_context s = Some ctx) \<and>
     (\<forall>c. lpc s = L_suspended (Some c) \<longrightarrow>
        c = ctx \<and> signal_request s = 0 \<and> tpc s = H_waiting \<and>
        in_signal_lock s = Some Listener \<and>
        rv_inevitable sg has_task ctx resume_returns s) \<and>
     (lpc s = L_rstore \<longrightarrow>
        (\<exists>s'. listener_step sg s = Some s' \<and> lpc s' = L_rbroadcast \<and>
           signal_request s' = (if sg = - 1 then 3 else 1))) \<and>
     (tpc s = H_xchg3 \<longrightarrow>
        (signal_request s = 1 \<or> signal_request s = 3) \<and>
        signal_request s = (if sg = - 1 then 3 else 1) \<and> lpc s = L_rwaiting \<and>
        (\<exists>s'. target_step has_task ctx s = Some s' \<and> tpc s' = H_broadcast2 \<and>
           t_request s' = signal_request s \<and> signal_request s' = 0)) \<and>
     (tpc s = H_broadcast2 \<longrightarrow>
        signal_request s = 0 \<and> lpc s = L_rwaiting \<and>
        (\<exists>s'. target_step has_task ctx s = Some s' \<and> tpc s' = H_unlock \<and>
           lpc s' = L_rreacquire)) \<and>
     (lpc s = L_resumed \<longrightarrow> signal_request s = 0 \<and> in_signal_lock s = None)"
proof -
  note I = rv_reachable_inv[OF assms]
  have A: "lpc s \<noteq> L_failed \<and> tpc s \<noteq> T_failed"
    using I by (auto simp: rv_inv_def)
  have B: "lpc s = L_load \<longrightarrow> signal_request s = 0 \<and> signal_context s = Some ctx"
    using I by (auto simp: rv_inv_def parked_def)
  have C: "\<forall>c. lpc s = L_suspended (Some c) \<longrightarrow>
        c = ctx \<and> signal_request s = 0 \<and> tpc s = H_waiting \<and>
        in_signal_lock s = Some Listener \<and>
        rv_inevitable sg has_task ctx resume_returns s"
  proof (intro allI impI)
    fix c
    assume p: "lpc s = L_suspended (Some c)"
    then have R: "(\<exists>c. lpc s = L_suspended (Some c)) \<or> resuming (lpc s)" by blast
    have "rv_inevitable sg has_task ctx resume_returns s"
      by (rule rv_inevitable_region
            [where R = "\<lambda>s. (\<exists>c. lpc s = L_suspended (Some c)) \<or> resuming (lpc s)",
             OF _ I R])
         (rule resuming_step)
    with I p show "c = ctx \<and> signal_request s = 0 \<and> tpc s = H_waiting \<and>
        in_signal_lock s = Some Listener \<and>
        rv_inevitable sg has_task ctx resume_returns s"
      by (auto simp: rv_inv_def parked_def)
  qed
  have D: "lpc s = L_rstore \<longrightarrow>
        (\<exists>s'. listener_step sg s = Some s' \<and> lpc s' = L_rbroadcast \<and>
           signal_request s' = (if sg = - 1 then 3 else 1))"
    by (simp add: listener_step_def)
  have E: "tpc s = H_xchg3 \<longrightarrow>
        (signal_request s = 1 \<or> signal_request s = 3) \<and>
        signal_request s = (if sg = - 1 then 3 else 1) \<and> lpc s = L_rwaiting \<and>
        (\<exists>s'. target_step has_task ctx s = Some s' \<and> tpc s' = H_broadcast2 \<and>
           t_request s' = signal_request s \<and> signal_request s' = 0)"
    using I
    by (cases "lpc s")
       (auto simp: rv_inv_def rv_phase_defs resume_request_def target_step_def
          split: option.splits if_splits)
  have F: "tpc s = H_broadcast2 \<longrightarrow>
        signal_request s = 0 \<and> lpc s = L_rwaiting \<and>
        (\<exists>s'. target_step has_task ctx s = Some s' \<and> tpc s' = H_unlock \<and>
           lpc s' = L_rreacquire)"
    using I
    by (cases "lpc s")
       (auto simp: rv_inv_def rv_phase_defs target_step_def broadcast_caught_def
          split: option.splits if_splits)
  have G: "lpc s = L_resumed \<longrightarrow> signal_request s = 0 \<and> in_signal_lock s = None"
    using I by (auto simp: rv_inv_def leaving_def)
  from A B C D E F G show ?thesis by blast
qed

theorem rendezvous_roundtrip_witness:
  "(case rv_run 2 True 7 suspend_schedule rv_init of
      None \<Rightarrow> False
    | Some s \<Rightarrow>
        lpc s = L_suspended (Some 7) \<and> signal_request s = 0 \<and> tpc s = H_waiting \<and>
        rv_inevitable 2 True 7 resume_returns s) \<and>
   (case rv_run (- 1) True 7 (suspend_schedule @ replicate 4 Listener_moves @ [Target_moves])
           rv_init of
      None \<Rightarrow> False
    | Some s \<Rightarrow>
        tpc s = H_xchg3 \<and> signal_request s = 3 \<and> lpc s = L_rwaiting \<and>
        (\<exists>s'. target_step True 7 s = Some s' \<and> tpc s' = H_broadcast2 \<and>
           t_request s' = 3 \<and> signal_request s' = 0)) \<and>
   (case rv_run 2 True 7 (suspend_schedule @ resume_schedule) rv_init of
      None \<Rightarrow> False
    | Some s \<Rightarrow> lpc s = L_resumed \<and> signal_request s = 0 \<and> in_signal_lock s = None) \<and>
   (case rv_run 2 True 7 suspend_schedule stale_start of
      None \<Rightarrow> False
    | Some s \<Rightarrow> lpc s = L_suspended (Some 7) \<and> signal_request s = 0)"
proof -
  have "map_option returned_context (rv_run 2 True 7 suspend_schedule rv_init) = Some True"
    by code_simp
  then obtain s1 where r1: "rv_run 2 True 7 suspend_schedule rv_init = Some s1"
    and "returned_context s1"
    by auto
  then obtain c where p1: "lpc s1 = L_suspended (Some c)"
    by (auto dest: returned_contextD)
  from rendezvous_roundtrip[OF quiescent_init rv_run_reachable[OF rv_start r1]] p1
  have A: "lpc s1 = L_suspended (Some 7) \<and> signal_request s1 = 0 \<and> tpc s1 = H_waiting \<and>
        rv_inevitable 2 True 7 resume_returns s1"
    by simp
  have "map_option tpc
          (rv_run (- 1) True 7 (suspend_schedule @ replicate 4 Listener_moves @ [Target_moves])
             rv_init) = Some H_xchg3"
    by code_simp
  then obtain s2 where r2: "rv_run (- 1) True 7
          (suspend_schedule @ replicate 4 Listener_moves @ [Target_moves]) rv_init = Some s2"
    and p2: "tpc s2 = H_xchg3"
    by auto
  from rendezvous_roundtrip[OF quiescent_init rv_run_reachable[OF rv_start r2]] p2
  have B: "tpc s2 = H_xchg3 \<and> signal_request s2 = 3 \<and> lpc s2 = L_rwaiting \<and>
        (\<exists>s'. target_step True 7 s2 = Some s' \<and> tpc s' = H_broadcast2 \<and>
           t_request s' = 3 \<and> signal_request s' = 0)"
    by auto
  have "map_option lpc (rv_run 2 True 7 (suspend_schedule @ resume_schedule) rv_init) =
        Some L_resumed"
    by code_simp
  then obtain s3 where r3: "rv_run 2 True 7 (suspend_schedule @ resume_schedule) rv_init = Some s3"
    and p3: "lpc s3 = L_resumed"
    by auto
  from rendezvous_roundtrip[OF quiescent_init rv_run_reachable[OF rv_start r3]] p3
  have C: "lpc s3 = L_resumed \<and> signal_request s3 = 0 \<and> in_signal_lock s3 = None"
    by simp
  have "map_option returned_context (rv_run 2 True 7 suspend_schedule stale_start) = Some True"
    by code_simp
  then obtain s4 where r4: "rv_run 2 True 7 suspend_schedule stale_start = Some s4"
    and "returned_context s4"
    by auto
  then obtain c4 where p4: "lpc s4 = L_suspended (Some c4)"
    by (auto dest: returned_contextD)
  have q4: "quiescent stale_start"
    by (simp add: quiescent_def stale_start_def rv_init_def)
  from rendezvous_roundtrip[OF q4 rv_run_reachable[OF rv_start r4]] p4
  have D: "lpc s4 = L_suspended (Some 7) \<and> signal_request s4 = 0"
    by simp
  from A B C D show ?thesis unfolding r1 r2 r3 r4 by simp
qed

subsection \<open>The timed wait runs out\<close>

text \<open>
  What claim C7 says holds for every round that starts with the target quiescent: when the
  timed wait of \<^verbatim>\<open>jl_thread_suspend_and_get_state\<close> has timed out, the
  listener takes the mutex again and does the compare-and-swap of \<^verbatim>\<open>signal_request\<close> from
  1 to 0.  If it finds 1, it stores 0, releases the mutex and returns no context, after which
  the listener goes to the next thread and does nothing more with this one.  If it finds
  \<open>- 1\<close>, it waits once more on \<^verbatim>\<open>signal_caught_cond\<close>, and on every schedule it then
  returns the context the handler published, with \<^verbatim>\<open>signal_request\<close> 0, after two waits
  in all.  If it finds 0 it goes on to the acquire load at once.
\<close>

theorem suspend_timeout:
  assumes "quiescent s0" "rv_reachable sg has_task ctx s0 s"
  shows "(lpc s = L_reacquire \<and> l_err s \<and> in_signal_lock s = None \<longrightarrow>
        (\<exists>s'. listener_step sg s = Some s' \<and> lpc s' = L_cas \<and>
           in_signal_lock s' = Some Listener)) \<and>
     (lpc s = L_cas \<longrightarrow>
        l_err s \<and> in_signal_lock s = Some Listener \<and>
        (signal_request s = 1 \<or> signal_request s = 0 \<or> signal_request s = - 1) \<and>
        (\<exists>s'. listener_step sg s = Some s' \<and>
           (if signal_request s = 1
            then signal_request s' = 0 \<and> lpc s' = L_fail_unlock
            else signal_request s' = signal_request s \<and> l_request s' = signal_request s \<and>
                 lpc s' = (if signal_request s = - 1 then L_wait_again else L_load)))) \<and>
     (lpc s = L_fail_unlock \<longrightarrow>
        (\<exists>s'. listener_step sg s = Some s' \<and> lpc s' = L_suspended None \<and>
           in_signal_lock s' = None)) \<and>
     (lpc s = L_suspended None \<longrightarrow>
        l_err s \<and> l_waits s = 1 \<and> in_signal_lock s = None \<and>
        (\<exists>s'. listener_step sg s = Some s' \<and> lpc s' = L_skipped \<and>
           listener_step sg s' = None)) \<and>
     (lpc s = L_wait_again \<longrightarrow>
        l_err s \<and> l_waits s = 1 \<and> in_signal_lock s = Some Listener \<and>
        rv_inevitable sg has_task ctx (\<lambda>s'. suspend_returns ctx s' \<and> l_waits s' = 2) s) \<and>
     (\<forall>c. lpc s = L_suspended (Some c) \<and> l_err s \<and> l_request s = - 1 \<longrightarrow>
        c = ctx \<and> signal_request s = 0 \<and> l_waits s = 2)"
proof -
  note I = rv_reachable_inv[OF assms]
  have A: "lpc s = L_reacquire \<and> l_err s \<and> in_signal_lock s = None \<longrightarrow>
        (\<exists>s'. listener_step sg s = Some s' \<and> lpc s' = L_cas \<and>
           in_signal_lock s' = Some Listener)"
    by (simp add: listener_step_def)
  have B: "lpc s = L_cas \<longrightarrow>
        l_err s \<and> in_signal_lock s = Some Listener \<and>
        (signal_request s = 1 \<or> signal_request s = 0 \<or> signal_request s = - 1) \<and>
        (\<exists>s'. listener_step sg s = Some s' \<and>
           (if signal_request s = 1
            then signal_request s' = 0 \<and> lpc s' = L_fail_unlock
            else signal_request s' = signal_request s \<and> l_request s' = signal_request s \<and>
                 lpc s' = (if signal_request s = - 1 then L_wait_again else L_load)))"
    using I by (auto simp: rv_inv_def approaching_def parked_def listener_step_def)
  have C: "lpc s = L_fail_unlock \<longrightarrow>
        (\<exists>s'. listener_step sg s = Some s' \<and> lpc s' = L_suspended None \<and>
           in_signal_lock s' = None)"
    by (simp add: listener_step_def)
  have D: "lpc s = L_suspended None \<longrightarrow>
        l_err s \<and> l_waits s = 1 \<and> in_signal_lock s = None \<and>
        (\<exists>s'. listener_step sg s = Some s' \<and> lpc s' = L_skipped \<and>
           listener_step sg s' = None)"
    using I by (auto simp: rv_inv_def listener_step_def)
  have E: "lpc s = L_wait_again \<longrightarrow>
        l_err s \<and> l_waits s = 1 \<and> in_signal_lock s = Some Listener \<and>
        rv_inevitable sg has_task ctx (\<lambda>s'. suspend_returns ctx s' \<and> l_waits s' = 2) s"
  proof
    assume p: "lpc s = L_wait_again"
    with I have q: "l_err s \<and> l_waits s = 1 \<and> in_signal_lock s = Some Listener \<and>
        l_request s = - 1"
      by (auto simp: rv_inv_def)
    with p have R: "waiting_again (lpc s) \<and> l_err s \<and> l_request s = - 1"
      by (simp add: waiting_again_def)
    have "rv_inevitable sg has_task ctx (\<lambda>s'. suspend_returns ctx s' \<and> l_waits s' = 2) s"
      by (rule rv_inevitable_region
            [where R = "\<lambda>s. waiting_again (lpc s) \<and> l_err s \<and> l_request s = - 1",
             OF _ I R])
         (rule waiting_again_step)
    with q show "l_err s \<and> l_waits s = 1 \<and> in_signal_lock s = Some Listener \<and>
        rv_inevitable sg has_task ctx (\<lambda>s'. suspend_returns ctx s' \<and> l_waits s' = 2) s"
      by blast
  qed
  have F: "\<forall>c. lpc s = L_suspended (Some c) \<and> l_err s \<and> l_request s = - 1 \<longrightarrow>
        c = ctx \<and> signal_request s = 0 \<and> l_waits s = 2"
    using I by (auto simp: rv_inv_def parked_def came_by_def)
  from A B C D E F show ?thesis by blast
qed

theorem suspend_timeout_witness:
  "(case rv_run 2 True 7 timeout_schedule rv_init of
      None \<Rightarrow> False
    | Some s \<Rightarrow>
        lpc s = L_cas \<and> l_err s \<and> signal_request s = 1 \<and>
        (\<exists>s'. listener_step 2 s = Some s' \<and> signal_request s' = 0 \<and> lpc s' = L_fail_unlock)) \<and>
   (case rv_run 2 True 7 (timeout_schedule @ [Listener_moves, Listener_moves]) rv_init of
      None \<Rightarrow> False
    | Some s \<Rightarrow>
        lpc s = L_suspended None \<and> l_err s \<and> in_signal_lock s = None \<and>
        (\<exists>s'. listener_step 2 s = Some s' \<and> lpc s' = L_skipped \<and>
           listener_step 2 s' = None)) \<and>
   (case rv_run 2 True 7 late_schedule rv_init of
      None \<Rightarrow> False
    | Some s \<Rightarrow>
        lpc s = L_wait_again \<and> l_err s \<and> l_waits s = 1 \<and>
        rv_inevitable 2 True 7 (\<lambda>s'. suspend_returns 7 s' \<and> l_waits s' = 2) s) \<and>
   (case rv_run 2 True 7 (late_schedule @ late_handler_schedule) rv_init of
      None \<Rightarrow> False
    | Some s \<Rightarrow>
        lpc s = L_suspended (Some 7) \<and> l_err s \<and> l_request s = - 1 \<and>
        signal_request s = 0 \<and> l_waits s = 2)"
proof -
  have "map_option (\<lambda>s. (lpc s, signal_request s)) (rv_run 2 True 7 timeout_schedule rv_init) =
        Some (L_cas, 1)"
    by code_simp
  then obtain s1 where r1: "rv_run 2 True 7 timeout_schedule rv_init = Some s1"
    and p1: "lpc s1 = L_cas" "signal_request s1 = 1"
    by auto
  from suspend_timeout[OF quiescent_init rv_run_reachable[OF rv_start r1]] p1
  have A: "lpc s1 = L_cas \<and> l_err s1 \<and> signal_request s1 = 1 \<and>
        (\<exists>s'. listener_step 2 s1 = Some s' \<and> signal_request s' = 0 \<and> lpc s' = L_fail_unlock)"
    by simp
  have "map_option lpc
          (rv_run 2 True 7 (timeout_schedule @ [Listener_moves, Listener_moves]) rv_init) =
        Some (L_suspended None)"
    by code_simp
  then obtain s2 where
    r2: "rv_run 2 True 7 (timeout_schedule @ [Listener_moves, Listener_moves]) rv_init = Some s2"
    and p2: "lpc s2 = L_suspended None"
    by auto
  from suspend_timeout[OF quiescent_init rv_run_reachable[OF rv_start r2]] p2
  have B: "lpc s2 = L_suspended None \<and> l_err s2 \<and> in_signal_lock s2 = None \<and>
        (\<exists>s'. listener_step 2 s2 = Some s' \<and> lpc s' = L_skipped \<and>
           listener_step 2 s' = None)"
    by simp
  have "map_option lpc (rv_run 2 True 7 late_schedule rv_init) = Some L_wait_again"
    by code_simp
  then obtain s3 where r3: "rv_run 2 True 7 late_schedule rv_init = Some s3"
    and p3: "lpc s3 = L_wait_again"
    by auto
  from suspend_timeout[OF quiescent_init rv_run_reachable[OF rv_start r3]] p3
  have C: "lpc s3 = L_wait_again \<and> l_err s3 \<and> l_waits s3 = 1 \<and>
        rv_inevitable 2 True 7 (\<lambda>s'. suspend_returns 7 s' \<and> l_waits s' = 2) s3"
    by simp
  have "map_option (\<lambda>s. (returned_context s, l_err s, l_request s))
          (rv_run 2 True 7 (late_schedule @ late_handler_schedule) rv_init) =
        Some (True, True, - 1)"
    by code_simp
  then obtain s4 where
    r4: "rv_run 2 True 7 (late_schedule @ late_handler_schedule) rv_init = Some s4"
    and q4: "returned_context s4" and p4: "l_err s4" "l_request s4 = - 1"
    by auto
  from q4 obtain c where c4: "lpc s4 = L_suspended (Some c)"
    by (auto dest: returned_contextD)
  from suspend_timeout[OF quiescent_init rv_run_reachable[OF rv_start r4]] c4 p4
  have D: "lpc s4 = L_suspended (Some 7) \<and> l_err s4 \<and> l_request s4 = - 1 \<and>
        signal_request s4 = 0 \<and> l_waits s4 = 2"
    by simp
  from A B C D show ?thesis unfolding r1 r2 r3 r4 by simp
qed

subsection \<open>A signal still in flight\<close>

text \<open>
  Claim C6 says that \<^verbatim>\<open>signal_request\<close> is 0 when the suspend has returned a context and
  after the resume has completed, which is what the assertions of the two functions check.
  With a \<^verbatim>\<open>SIGUSR2\<close> of an earlier request still in flight it is not so.  A first call
  times out, takes its request back and returns no context; its signal is still pending.  In
  the second call that signal is delivered between the store of 1 and \<^verbatim>\<open>pthread_kill\<close>:
  the handler serves the request, the signal of the second call stays pending while the
  handler runs, and starts the handler again when the round trip is over; its first exchange
  puts \<open>- 1\<close> into \<^verbatim>\<open>signal_request\<close> after the acquire load of the resume and before its
  unlock, and the resume completes with \<open>- 1\<close> there.  On another schedule the handler
  started by the late signal wipes out the 1 of the second call with its second exchange,
  the timed wait runs out, the compare-and-swap finds 0, and the handler started by the
  second signal exchanges \<open>- 1\<close> in before the acquire load: the assertion
  \<^verbatim>\<open>request == 0\<close> of \<^verbatim>\<open>jl_thread_suspend_and_get_state\<close> fails.
\<close>

theorem late_signal_breaks_roundtrip:
  "map_option (\<lambda>s. (lpc s, sigusr2_pending s, signal_request s))
     (rv_run 2 True 7 withdrawn_call rv_init) = Some (L_skipped, True, 0) \<and>
   map_option (\<lambda>s. (lpc s, signal_request s))
     (rv_second_call 2 True 7 withdrawn_call doubled_signal_call) = Some (L_resumed, - 1) \<and>
   map_option lpc (rv_second_call 2 True 7 withdrawn_call asserting_call) = Some L_failed"
  by code_simp

text \<open>
  Claim C7 says that a call which finds \<open>- 1\<close> after the timeout waits once more and then
  returns the context.  The source takes \<open>- 1\<close> to mean that the handler is waiting for
  \<^verbatim>\<open>in_signal_lock\<close>; it can also be a handler that found no request and is between its two
  exchanges.  A first call times out and takes its request back; its signal is delivered late
  and the handler exchanges \<open>- 1\<close> in; the second call stores 1, which the second exchange
  of the handler wipes out; the signal of the second call starts the handler again, which
  again finds no request; the timed wait runs out while this handler is between its
  exchanges, the compare-and-swap finds \<open>- 1\<close>, and the call waits on
  \<^verbatim>\<open>signal_caught_cond\<close>.  The handler stores 0 and returns without a broadcast: nobody
  can move any more, and the call does not return.
\<close>

theorem late_signal_blocks_suspend:
  "map_option (\<lambda>s. (lpc s, sigusr2_pending s, signal_request s))
     (rv_run 2 True 7 withdrawn_call rv_init) = Some (L_skipped, True, 0) \<and>
   map_option (\<lambda>s. (lpc s, tpc s, l_err s, l_request s, signal_request s, nobody_moves 2 True 7 s))
     (rv_second_call 2 True 7 withdrawn_call stalled_call) =
     Some (L_waiting_again, T_run, True, - 1, 0, True)"
  by code_simp

end
